theory Spec2Isabelle
  imports Main "HOL-Library.Word" "HOL-Library.Monad_Syntax"
begin

unbundle bit_operations_syntax

section \<open>Machine data\<close>

type_synonym u8 = "8 word"
type_synonym u16 = "16 word"
type_synonym u32 = "32 word"
type_synonym u64 = "64 word"

text \<open>
  The build targets of \<^verbatim>\<open>posix_ping.cpp\<close>: the host byte order decides how a
  \<^verbatim>\<open>quint16\<close> read through a cast pointer is assembled and what \<^verbatim>\<open>htons\<close> does;
  \<^verbatim>\<open>Q_OS_MAC\<close> decides the timestamp width and the don't-fragment path.
\<close>

datatype os = Mac | Linux

record platform =
  bigEndian :: bool
  system :: os

subsection \<open>Byte order\<close>

definition bswap16 :: "u16 \<Rightarrow> u16" where
  "bswap16 w = push_bit 8 w OR drop_bit 8 w"

definition bswap32 :: "u32 \<Rightarrow> u32" where
  "bswap32 w =
     push_bit 24 w OR push_bit 8 (w AND 0xFF00) OR (drop_bit 8 w AND 0xFF00) OR drop_bit 24 w"

definition htons :: "bool \<Rightarrow> u16 \<Rightarrow> u16" where
  "htons be w = (if be then w else bswap16 w)"

definition ntohs :: "bool \<Rightarrow> u16 \<Rightarrow> u16" where
  "ntohs be w = (if be then w else bswap16 w)"

definition htonl :: "bool \<Rightarrow> u32 \<Rightarrow> u32" where
  "htonl be w = (if be then w else bswap32 w)"

definition ntohl :: "bool \<Rightarrow> u32 \<Rightarrow> u32" where
  "ntohl be w = (if be then w else bswap32 w)"

text \<open>The bytes of a 16-, 32- or 64-bit object in memory order on the host.\<close>

definition bytes16 :: "bool \<Rightarrow> u16 \<Rightarrow> u8 list" where
  "bytes16 be w = (if be then [ucast (drop_bit 8 w), ucast w] else [ucast w, ucast (drop_bit 8 w)])"

definition bytes32 :: "bool \<Rightarrow> u32 \<Rightarrow> u8 list" where
  "bytes32 be w =
     (let le = [ucast w, ucast (drop_bit 8 w), ucast (drop_bit 16 w), ucast (drop_bit 24 w)]
      in if be then rev le else le)"

definition bytes64 :: "bool \<Rightarrow> u64 \<Rightarrow> u8 list" where
  "bytes64 be w =
     (let le = [ucast w, ucast (drop_bit 8 w), ucast (drop_bit 16 w), ucast (drop_bit 24 w),
                ucast (drop_bit 32 w), ucast (drop_bit 40 w), ucast (drop_bit 48 w),
                ucast (drop_bit 56 w)]
      in if be then rev le else le)"

definition word16 :: "bool \<Rightarrow> u8 \<Rightarrow> u8 \<Rightarrow> u16" where
  "word16 be b0 b1 =
     (if be then push_bit 8 (ucast b0) OR ucast b1 else push_bit 8 (ucast b1) OR ucast b0)"

definition word32 :: "bool \<Rightarrow> u8 \<Rightarrow> u8 \<Rightarrow> u8 \<Rightarrow> u8 \<Rightarrow> u32" where
  "word32 be b0 b1 b2 b3 =
     (if be
      then push_bit 24 (ucast b0) OR push_bit 16 (ucast b1) OR push_bit 8 (ucast b2) OR ucast b3
      else push_bit 24 (ucast b3) OR push_bit 16 (ucast b2) OR push_bit 8 (ucast b1) OR ucast b0)"

subsection \<open>Checked loads\<close>

text \<open>
  A load from a byte range: \<open>None\<close> is an access outside the bytes that the range holds
  (past the read length on the receive path, past the vector on the send path).
\<close>

definition ld8 :: "u8 list \<Rightarrow> nat \<Rightarrow> u8 option" where
  "ld8 mem i = (if i < length mem then Some (mem ! i) else None)"

definition ld16 :: "bool \<Rightarrow> u8 list \<Rightarrow> nat \<Rightarrow> u16 option" where
  "ld16 be mem i = do {
     b0 \<leftarrow> ld8 mem i;
     b1 \<leftarrow> ld8 mem (i + 1);
     Some (word16 be b0 b1)
   }"

definition ld32 :: "bool \<Rightarrow> u8 list \<Rightarrow> nat \<Rightarrow> u32 option" where
  "ld32 be mem i = do {
     b0 \<leftarrow> ld8 mem i;
     b1 \<leftarrow> ld8 mem (i + 1);
     b2 \<leftarrow> ld8 mem (i + 2);
     b3 \<leftarrow> ld8 mem (i + 3);
     Some (word32 be b0 b1 b2 b3)
   }"

subsection \<open>Stores into an allocated buffer\<close>

text \<open>
  The send path writes through raw pointers into \<^verbatim>\<open>rawPacket.data()\<close>, with no
  bounds check in the source. A buffer holds the allocated bytes and the log of every byte
  offset stored to, in program order: a store inside the allocation updates the byte, a
  store at or past the end (undefined behaviour in C++) leaves the allocation as it is
  and shows in the log only, so that it can be stated which stores fall outside.
\<close>

record buffer =
  bytes :: "u8 list"
  stores :: "nat list"

definition st8 :: "nat \<Rightarrow> u8 \<Rightarrow> buffer \<Rightarrow> buffer" where
  "st8 i v buf =
     \<lparr>bytes = (if i < length (bytes buf) then (bytes buf)[i := v] else bytes buf),
      stores = stores buf @ [i]\<rparr>"

fun storeBytes :: "nat \<Rightarrow> u8 list \<Rightarrow> buffer \<Rightarrow> buffer" where
  "storeBytes i [] buf = buf"
| "storeBytes i (v # vs) buf = storeBytes (Suc i) vs (st8 i v buf)"

definition st16 :: "bool \<Rightarrow> nat \<Rightarrow> u16 \<Rightarrow> buffer \<Rightarrow> buffer" where
  "st16 be i w buf = storeBytes i (bytes16 be w) buf"

definition st32 :: "bool \<Rightarrow> nat \<Rightarrow> u32 \<Rightarrow> buffer \<Rightarrow> buffer" where
  "st32 be i w buf = storeBytes i (bytes32 be w) buf"

definition st64 :: "bool \<Rightarrow> nat \<Rightarrow> u64 \<Rightarrow> buffer \<Rightarrow> buffer" where
  "st64 be i w buf = storeBytes i (bytes64 be w) buf"

text \<open>The stores that fell outside the allocation.\<close>

definition outOfBounds :: "buffer \<Rightarrow> nat list" where
  "outOfBounds buf = filter (\<lambda>i. length (bytes buf) \<le> i) (stores buf)"

section \<open>The Internet checksum: \<^verbatim>\<open>PosixPing::calcChecksum\<close>\<close>

text \<open>
  The loop \<^verbatim>\<open>while(words != wordsEnd) { accum += *words; ++words; }\<close>: \<open>words\<close> is
  the byte offset of the word pointer, the counter is \<^verbatim>\<open>wordsEnd - words\<close>, the
  accumulator is a \<^verbatim>\<open>quint32\<close> and wraps.
\<close>

fun sumWords :: "bool \<Rightarrow> u8 list \<Rightarrow> nat \<Rightarrow> nat \<Rightarrow> u32 \<Rightarrow> u32 option" where
  "sumWords be mem words 0 accum = Some accum"
| "sumWords be mem words (Suc n) accum =
     (case ld16 be mem words of
        None \<Rightarrow> None
      | Some w \<Rightarrow> sumWords be mem (words + 2) n (accum + ucast w))"

definition foldCarry :: "u32 \<Rightarrow> u32" where
  "foldCarry accum = (accum AND 0xFFFF) + drop_bit 16 accum"

definition calcChecksum :: "bool \<Rightarrow> u8 list \<Rightarrow> nat \<Rightarrow> nat \<Rightarrow> u16 option" where
  "calcChecksum be mem data len = do {
     accum \<leftarrow> sumWords be mem data (len div 2) 0;
     accum \<leftarrow> (if len mod 2 \<noteq> 0
                then do { b \<leftarrow> ld8 mem (data + len - 1); Some (accum + ucast b) }
                else Some accum);
     let accum = foldCarry accum;
     let accum = foldCarry accum;
     Some (NOT (ucast accum :: u16))
   }"


section \<open>The prober\<close>

text \<open>
  The members of \<^verbatim>\<open>PosixPing\<close>: \<^verbatim>\<open>_identifier\<close>, \<^verbatim>\<open>_nextSequence\<close> and the raw socket
  \<^verbatim>\<open>_icmpSocket\<close>, of which the code only ever tests the validity (\<^verbatim>\<open>!_icmpSocket\<close>).
\<close>

record prober =
  "identifier" :: u16
  nextSequence :: u16
  icmpSocket :: bool

text \<open>The \<^verbatim>\<open>qWarning()\<close> lines of both paths, with the values they print.\<close>

datatype warning =
    ReadFailed int
  | IncompletePacket nat
  | InvalidVersion u8
  | InvalidHeaderLength nat nat
  | NonIcmpProtocol u8
  | CorruptIcmp u32
  | SetDfFailed
  | WouldBlock u32
  | SendFailed u32 int
  | PartialSend int int u32

subsection \<open>Header layouts\<close>

text \<open>
  \<^verbatim>\<open>struct ip\<close> of \<^verbatim>\<open>netinet/ip.h\<close> and the local \<^verbatim>\<open>Ipv4\<close> of \<^verbatim>\<open>onReadyRead\<close> are the
  20-byte IPv4 header: version and header length share byte 0 (version in the high
  nibble), then tos 1, length 2, id 4, offset 6, ttl 8, protocol 9, checksum 10,
  source 12, destination 16.
\<close>

abbreviation (input) sizeofIp :: nat where "sizeofIp \<equiv> 20"

text \<open>
  Modelled from the spec: \<^verbatim>\<open>IcmpEcho\<close> is declared in \<^verbatim>\<open>posix_ping.h\<close>, which is not
  among the sources. The spec gives the ICMP Echo message as type, code, checksum,
  identifier, sequence in 8 bytes: type at 0, code at 1, checksum at 2, identifier at 4,
  sequence at 6.
\<close>

abbreviation (input) sizeofIcmpEcho :: nat where "sizeofIcmpEcho \<equiv> 8"

subsection \<open>\<^verbatim>\<open>PosixPing::onReadyRead\<close>\<close>

text \<open>
  What \<^verbatim>\<open>recv\<close> returned: a negative result with its \<^verbatim>\<open>errno\<close>, or the bytes it put
  at the start of the 2048-byte array; \<^verbatim>\<open>read\<close> is their number. The rest of the array
  holds nothing that was received, and a load there is the \<open>None\<close> of the checked loads.
\<close>

datatype recvResult = RecvFailed int | RecvBytes "u8 list"

record reception =
  rxLog :: "warning list"
  receivedReply :: "u32 list"

definition onReadyRead :: "bool \<Rightarrow> prober \<Rightarrow> recvResult \<Rightarrow> reception option" where
  "onReadyRead be self r =
     (case r of
        RecvFailed err \<Rightarrow> Some \<lparr>rxLog = [ReadFailed err], receivedReply = []\<rparr>
      | RecvBytes packet \<Rightarrow>
          let read = length packet in
          if read < sizeofIp
          then Some \<lparr>rxLog = [IncompletePacket read], receivedReply = []\<rparr>
          else do {
            version_ihl \<leftarrow> ld8 packet 0;
            if drop_bit 4 version_ihl \<noteq> 4
            then Some \<lparr>rxLog = [InvalidVersion (drop_bit 4 version_ihl)], receivedReply = []\<rparr>
            else
              let headerBytes = unat (version_ihl AND 0x0F) * 4 in
              if headerBytes < 20 \<or> read < headerBytes \<or> read - headerBytes < sizeofIcmpEcho
              then Some \<lparr>rxLog = [InvalidHeaderLength headerBytes read], receivedReply = []\<rparr>
              else do {
                protocol \<leftarrow> ld8 packet 9;
                if protocol \<noteq> 1
                then Some \<lparr>rxLog = [NonIcmpProtocol protocol], receivedReply = []\<rparr>
                else do {
                  cksum \<leftarrow> calcChecksum be packet headerBytes (read - headerBytes);
                  log \<leftarrow> (if cksum \<noteq> 0
                           then do { src \<leftarrow> ld32 be packet 12; Some [CorruptIcmp (ntohl be src)] }
                           else Some []);
                  type \<leftarrow> ld8 packet headerBytes;
                  if type \<noteq> 0 then Some \<lparr>rxLog = log, receivedReply = []\<rparr>
                  else do {
                    code \<leftarrow> ld8 packet (headerBytes + 1);
                    if code \<noteq> 0 then Some \<lparr>rxLog = log, receivedReply = []\<rparr>
                    else do {
                      ident \<leftarrow> ld16 be packet (headerBytes + 4);
                      if ntohs be ident \<noteq> identifier self
                      then Some \<lparr>rxLog = log, receivedReply = []\<rparr>
                      else do {
                        src \<leftarrow> ld32 be packet 12;
                        Some \<lparr>rxLog = log, receivedReply = [ntohl be src]\<rparr>
                      }
                    }
                  }
                }
              }
          })"

subsection \<open>\<^verbatim>\<open>PosixPing::sendEchoRequest\<close>\<close>

text \<open>
  The production build: \<^verbatim>\<open>UNIT_TEST\<close> is not defined, so the mock at the head of the
  function is compiled out.

  \<^verbatim>\<open>int\<close> is 32 bits wide, \<^verbatim>\<open>std::size_t\<close> 64: the sums that initialise
  \<^verbatim>\<open>rawPacketSize\<close> and \<^verbatim>\<open>packetSize\<close> are formed in \<^verbatim>\<open>size_t\<close> and converted back.
\<close>

definition toInt :: "int \<Rightarrow> int" where
  "toInt x = (x + 2 ^ 31) mod 2 ^ 32 - 2 ^ 31"

definition toSizeT :: "int \<Rightarrow> nat" where
  "toSizeT x = nat (x mod 2 ^ 64)"

text \<open>The bit-fields \<^verbatim>\<open>ip_v\<close> and \<^verbatim>\<open>ip_hl\<close>: a store changes one nibble of byte 0.\<close>

definition rmw8 :: "nat \<Rightarrow> (u8 \<Rightarrow> u8) \<Rightarrow> buffer \<Rightarrow> buffer" where
  "rmw8 i f buf =
     (if i < length (bytes buf) then st8 i (f (bytes buf ! i)) buf
      else buf\<lparr>stores := stores buf @ [i]\<rparr>)"

definition set_ip_v :: "u8 \<Rightarrow> buffer \<Rightarrow> buffer" where
  "set_ip_v v = rmw8 0 (\<lambda>b. (b AND 0x0F) OR push_bit 4 v)"

definition set_ip_hl :: "u8 \<Rightarrow> buffer \<Rightarrow> buffer" where
  "set_ip_hl hl = rmw8 0 (\<lambda>b. (b AND 0xF0) OR (hl AND 0x0F))"

text \<open>Lines 112 to 125: the fields of \<^verbatim>\<open>struct ip\<close>, at \<^verbatim>\<open>pRawPacket\<close> (offset 0).\<close>

definition writeIpHeader :: "bool \<Rightarrow> u16 \<Rightarrow> u32 \<Rightarrow> int \<Rightarrow> buffer \<Rightarrow> buffer" where
  "writeIpHeader be ident address rawPacketSize ip =
     (let ip = st32 be 12 0 ip;
          ip = set_ip_v 4 ip;
          ip = set_ip_hl (drop_bit 2 (of_nat sizeofIp)) ip;
          ip = st8 1 0 ip;
          ip = st16 be 2 (word_of_int rawPacketSize) ip;
          ip = st16 be 4 (htons be ident) ip;
          ip = st16 be 6 (htons be 0) ip;
          ip = st8 8 255 ip;
          ip = st8 9 1 ip;
          ip = st16 be 10 0 ip;
          ip = st32 be 16 (htonl be address) ip
      in ip)"

text \<open>Lines 127 to 131: the fields of \<^verbatim>\<open>IcmpEcho\<close>, at \<^verbatim>\<open>packet\<close>.\<close>

definition writeEchoHeader :: "bool \<Rightarrow> u16 \<Rightarrow> u16 \<Rightarrow> nat \<Rightarrow> buffer \<Rightarrow> buffer" where
  "writeEchoHeader be ident seq packet pEcho =
     (let pEcho = st8 packet 8 pEcho;
          pEcho = st8 (packet + 1) 0 pEcho;
          pEcho = st16 be (packet + 2) 0 pEcho;
          pEcho = st16 be (packet + 4) (htons be ident) pEcho;
          pEcho = st16 be (packet + 6) (htons be seq) pEcho
      in pEcho)"

text \<open>Lines 136 to 139: \<^verbatim>\<open>for(int i = 0; i < payloadSize; ++i) packet[sizeof(IcmpEcho)+i] = i;\<close>\<close>

function fillPayload :: "nat \<Rightarrow> int \<Rightarrow> int \<Rightarrow> buffer \<Rightarrow> buffer" where
  "fillPayload packet payloadSize i buf =
     (if i < payloadSize
      then fillPayload packet payloadSize (i + 1)
             (st8 (packet + sizeofIcmpEcho + nat i) (word_of_int i) buf)
      else buf)"
  by pat_completeness auto
termination
  by (relation "measure (\<lambda>(packet, payloadSize, i, buf). nat (payloadSize - i))") auto

declare fillPayload.simps [simp del]

text \<open>
  Lines 141 to 154: \<^verbatim>\<open>TimestampField\<close> is \<^verbatim>\<open>quint32\<close> under \<^verbatim>\<open>Q_OS_MAC\<close> and \<^verbatim>\<open>quint64\<close>
  otherwise; two of them are stored at \<^verbatim>\<open>&packet[sizeof(IcmpEcho)]\<close>.
\<close>

definition sizeofTimestampField :: "platform \<Rightarrow> nat" where
  "sizeofTimestampField pf = (case system pf of Mac \<Rightarrow> 4 | Linux \<Rightarrow> 8)"

definition writeTimestamp :: "platform \<Rightarrow> int \<Rightarrow> int \<Rightarrow> nat \<Rightarrow> buffer \<Rightarrow> buffer" where
  "writeTimestamp pf tv_sec tv_usec pWritePos buf =
     (case system pf of
        Mac \<Rightarrow>
          st32 (bigEndian pf) (pWritePos + 4) (word_of_int tv_usec)
            (st32 (bigEndian pf) pWritePos (word_of_int tv_sec) buf)
      | Linux \<Rightarrow>
          st64 (bigEndian pf) (pWritePos + 8) (word_of_int tv_usec)
            (st64 (bigEndian pf) pWritePos (word_of_int tv_sec) buf))"

text \<open>What the environment hands back during one call.\<close>

record env =
  tv_sec :: int
  tv_usec :: int
  setsockoptErr :: int
  sent :: int
  errno :: int

definition EWOULDBLOCK :: "platform \<Rightarrow> int" where
  "EWOULDBLOCK pf = (case system pf of Mac \<Rightarrow> 35 | Linux \<Rightarrow> 11)"

abbreviation (input) IP_DF :: u16 where "IP_DF \<equiv> 0x4000"

text \<open>
  How a call ends: it returns, or \<^verbatim>\<open>rawPacket.resize\<close> throws \<^verbatim>\<open>std::length_error\<close> (a
  negative \<^verbatim>\<open>rawPacketSize\<close> converts to a size beyond \<^verbatim>\<open>max_size()\<close>), or the
  process faults: at the store of line 112 through the null \<^verbatim>\<open>data()\<close> of a vector of
  size 0, which has no storage, or in \<^verbatim>\<open>calcChecksum\<close> at a load from outside the
  vector. Only after \<open>Returned\<close> is there a prober to call again.
\<close>

datatype ending = Returned bool | LengthError | NullStore | LoadOutside

record sending =
  ending :: ending
  after :: prober
  rawPacket :: "buffer option"
  sendto :: "u8 list option"
  txLog :: "warning list"

text \<open>
  Lines 102 to 154: the vector of \<^verbatim>\<open>rawPacketSize\<close> zero bytes and the stores into it,
  up to the timestamp. The sequence field takes \<^verbatim>\<open>_nextSequence\<close> as it is before the
  increment of line 133.
\<close>

definition buildPacket ::
  "platform \<Rightarrow> prober \<Rightarrow> u32 \<Rightarrow> int \<Rightarrow> env \<Rightarrow> int \<Rightarrow> buffer" where
  "buildPacket pf self address payloadSize e rawPacketSize =
     (let rawPacket = \<lparr>bytes = replicate (nat rawPacketSize) 0, stores = []\<rparr>;
          packet = sizeofIp;
          rawPacket = writeIpHeader (bigEndian pf) (identifier self) address rawPacketSize rawPacket;
          rawPacket = writeEchoHeader (bigEndian pf) (identifier self) (nextSequence self)
                        packet rawPacket;
          rawPacket = fillPayload packet payloadSize 0 rawPacket;
          rawPacket = writeTimestamp pf (tv_sec e) (tv_usec e) (packet + sizeofIcmpEcho) rawPacket
      in rawPacket)"

text \<open>
  Lines 160 to 164: \<^verbatim>\<open>ip->ip_off = IP_DF\<close> under \<^verbatim>\<open>Q_OS_MAC\<close>,
  \<^verbatim>\<open>ip->ip_off = htons(IP_DF)\<close> otherwise.
\<close>

definition set_ip_off_DF :: "platform \<Rightarrow> buffer \<Rightarrow> buffer" where
  "set_ip_off_DF pf ip =
     (case system pf of
        Mac \<Rightarrow> st16 (bigEndian pf) 6 IP_DF ip
      | Linux \<Rightarrow> st16 (bigEndian pf) 6 (htons (bigEndian pf) IP_DF) ip)"

definition sendEchoRequest ::
  "platform \<Rightarrow> prober \<Rightarrow> u32 \<Rightarrow> int \<Rightarrow> bool \<Rightarrow> env \<Rightarrow> sending" where
  "sendEchoRequest pf self address payloadSize allowFragment e =
     (if \<not> icmpSocket self
      then \<lparr>ending = Returned False, after = self, rawPacket = None, sendto = None, txLog = []\<rparr>
      else
        let rawPacketSize = toInt (int sizeofIcmpEcho + payloadSize + int sizeofIp);
            packetSize = toInt (int sizeofIcmpEcho + payloadSize)
        in
        if rawPacketSize < 0
        then \<lparr>ending = LengthError, after = self, rawPacket = None, sendto = None, txLog = []\<rparr>
        else if rawPacketSize = 0
        then \<lparr>ending = NullStore, after = self, rawPacket = None, sendto = None, txLog = []\<rparr>
        else
          let be = bigEndian pf;
              packet = sizeofIp;
              buf = buildPacket pf self address payloadSize e rawPacketSize;
              self = self\<lparr>nextSequence := nextSequence self + 1\<rparr>
          in
          case calcChecksum be (bytes buf) packet (toSizeT packetSize) of
            None \<Rightarrow>
              \<lparr>ending = LoadOutside, after = self, rawPacket = Some buf, sendto = None,
               txLog = []\<rparr>
          | Some checksum \<Rightarrow>
              let buf = st16 be (packet + 2) checksum buf;
                  buf = (if \<not> allowFragment then set_ip_off_DF pf buf else buf)
              in
              if \<not> allowFragment \<and> system pf = Linux \<and> setsockoptErr e \<noteq> 0
              then \<lparr>ending = Returned False, after = self, rawPacket = Some buf, sendto = None,
                    txLog = [SetDfFailed]\<rparr>
              else if sent e < 0
              then \<lparr>ending = Returned False, after = self, rawPacket = Some buf,
                    sendto = Some (bytes buf),
                    txLog = [if errno e = EWOULDBLOCK pf then WouldBlock address
                             else SendFailed address (errno e)]\<rparr>
              else if sent e \<noteq> rawPacketSize
              then \<lparr>ending = Returned False, after = self, rawPacket = Some buf,
                    sendto = Some (bytes buf),
                    txLog = [PartialSend (sent e) rawPacketSize address]\<rparr>
              else \<lparr>ending = Returned True, after = self, rawPacket = Some buf,
                    sendto = Some (bytes buf), txLog = []\<rparr>)"

subsection \<open>A prober's lifetime of sends\<close>

text \<open>One call: its arguments and what the environment hands back during it.\<close>

record call =
  c_address :: u32
  c_payloadSize :: int
  c_allowFragment :: bool
  c_env :: env

text \<open>
  The prober after a list of calls, one after the other: \<open>None\<close> when one of them does
  not return (it throws or the process faults), since no call follows it.
\<close>

fun sendAll :: "platform \<Rightarrow> prober \<Rightarrow> call list \<Rightarrow> prober option" where
  "sendAll pf self [] = Some self"
| "sendAll pf self (c # cs) =
     (let r = sendEchoRequest pf self (c_address c) (c_payloadSize c) (c_allowFragment c)
                (c_env c)
      in case ending r of
           Returned ok \<Rightarrow> sendAll pf (after r) cs
         | LengthError \<Rightarrow> None
         | NullStore \<Rightarrow> None
         | LoadOutside \<Rightarrow> None)"

section \<open>Vocabulary of the statements\<close>

text \<open>
  Names for what the theorems speak about: the carry folding on natural numbers, the
  complemented double fold that ends \<^verbatim>\<open>calcChecksum\<close>, the 16-bit word of a buffer at an
  offset, and the fields of a received datagram that \<^verbatim>\<open>onReadyRead\<close> tests.
\<close>

definition fold1 :: "nat \<Rightarrow> nat" where
  "fold1 x = x mod 65536 + x div 65536"

definition csum :: "u32 \<Rightarrow> u16" where
  "csum accum = NOT (ucast (foldCarry (foldCarry accum)) :: u16)"

definition wordAt :: "bool \<Rightarrow> u8 list \<Rightarrow> nat \<Rightarrow> u32" where
  "wordAt be mem i = ucast (word16 be (mem ! i) (mem ! (i + 1)))"

definition ihl :: "u8 list \<Rightarrow> nat" where
  "ihl packet = unat (packet ! 0 AND 0x0F) * 4"

definition passesIpChecks :: "u8 list \<Rightarrow> bool" where
  "passesIpChecks packet \<longleftrightarrow>
     20 \<le> length packet \<and> drop_bit 4 (packet ! 0) = 4 \<and> 20 \<le> ihl packet \<and>
     ihl packet \<le> length packet \<and> 8 \<le> length packet - ihl packet \<and> packet ! 9 = 1"

definition srcAddress :: "bool \<Rightarrow> u8 list \<Rightarrow> u32" where
  "srcAddress be packet =
     ntohl be (word32 be (packet ! 12) (packet ! 13) (packet ! 14) (packet ! 15))"

definition echoIdentifier :: "bool \<Rightarrow> u8 list \<Rightarrow> u16" where
  "echoIdentifier be packet =
     ntohs be (word16 be (packet ! (ihl packet + 4)) (packet ! (ihl packet + 5)))"

text \<open>
  A datagram to evaluate on: a 20-byte IPv4 header (version 4, header length 5,
  protocol 1, source 10.0.0.1) and an 8-byte echo header of type \<open>t\<close>, code 0, checksum
  field 0, identifier \<open>0x1234\<close>, sequence 1.
\<close>

definition exampleDatagram :: "u8 \<Rightarrow> u8 list" where
  "exampleDatagram t =
     [0x45, 0, 0, 0, 0, 0, 0, 0, 0x40, 1, 0, 0, 10, 0, 0, 1, 10, 0, 0, 2,
      t, 0, 0, 0, 0x12, 0x34, 0, 1]"

definition exampleProber :: prober where
  "exampleProber = \<lparr>identifier = 0x1234, nextSequence = 7, icmpSocket = True\<rparr>"

definition exampleLinux :: platform where
  "exampleLinux = \<lparr>bigEndian = False, system = Linux\<rparr>"

text \<open>
  A call to evaluate on: a ping of 10.0.0.1 with the default 56-byte payload, during
  which \<^verbatim>\<open>sendto\<close> fails with \<^verbatim>\<open>errno\<close> 11.
\<close>

definition exampleEnv :: env where
  "exampleEnv = \<lparr>tv_sec = 1700000000, tv_usec = 250000, setsockoptErr = 0, sent = - 1, errno = 11\<rparr>"

definition exampleCall :: call where
  "exampleCall = \<lparr>c_address = 0x0A000001, c_payloadSize = 56, c_allowFragment = True,
                  c_env = exampleEnv\<rparr>"

section \<open>The checksum\<close>

subsection \<open>Folding carries, on natural numbers\<close>

lemma fold1_hl: "l < 65536 \<Longrightarrow> fold1 (65536 * h + l) = h + l"
  by (simp add: fold1_def)

lemma fold2_hl:
  assumes "l < 65536" "h < 65536"
  shows "fold1 (fold1 (65536 * h + l)) = (if h + l < 65536 then h + l else h + l - 65535)"
proof (cases "h + l < 65536")
  case True
  then show ?thesis using assms by (simp add: fold1_hl) (simp add: fold1_def)
next
  case False
  then have "h + l = 65536 * 1 + (h + l - 65536)" "h + l - 65536 < 65536" using assms by auto
  then have "fold1 (h + l) = 1 + (h + l - 65536)" using fold1_hl[of "h + l - 65536" 1] by simp
  then show ?thesis using False assms by (simp add: fold1_hl)
qed

lemma nat_core:
  assumes "A < 2 ^ 32"
  shows "fold1 (fold1 A) \<le> 65535 \<and> A + (65535 - fold1 (fold1 A)) < 2 ^ 32
     \<and> fold1 (fold1 (A + (65535 - fold1 (fold1 A)))) = 65535"
proof -
  define h where "h = A div 65536"
  define l where "l = A mod 65536"
  have A: "A = 65536 * h + l" and l: "l < 65536" by (simp_all add: h_def l_def)
  have h: "h < 65536" using assms by (simp add: h_def less_mult_imp_div_less)
  have F: "fold1 (fold1 A) = (if h + l < 65536 then h + l else h + l - 65535)"
    unfolding A using fold2_hl[OF l h] .
  show ?thesis
  proof (cases "h + l < 65536")
    case True
    then have B: "A + (65535 - fold1 (fold1 A)) = 65536 * h + (65535 - h)"
      using F A by simp
    have "fold1 (fold1 (65536 * h + (65535 - h))) = 65535"
      using fold2_hl[of "65535 - h" h] h by simp
    then show ?thesis using True F B h l A by simp
  next
    case False
    show ?thesis
    proof (cases "h = 65535")
      case True
      then have B': "A + (65535 - fold1 (fold1 A)) = 65536 * 65535 + 65535"
        using F A False l by simp
      have "fold1 (fold1 (65536 * 65535 + 65535)) = 65535" by (simp add: fold1_def)
      then show ?thesis using B' False F h l by simp
    next
      case False2: False
      then have h1: "h + 1 < 65536" using h by simp
      have B: "A + (65535 - fold1 (fold1 A)) = 65536 * (h + 1) + (65534 - h)"
        using F A False h l False2 by simp
      have "fold1 (fold1 (65536 * (h + 1) + (65534 - h))) = 65535"
        using fold2_hl[of "65534 - h" "h + 1"] h1 by simp
      then show ?thesis using B False F h l h1 by simp
    qed
  qed
qed

lemma unat_and_ffff: "unat ((a::u32) AND 0xFFFF) = unat a mod 65536"
proof -
  have "(a AND 0xFFFF) = take_bit 16 a"
    using take_bit_eq_mask[of 16 a] by (simp add: mask_eq_exp_minus_1)
  then show ?thesis by (simp add: take_bit_eq_mod unat_mod)
qed

lemma unat_drop16: "unat (drop_bit 16 (a::u32)) = unat a div 65536"
  by (simp add: drop_bit_eq_div unat_div)

lemma unat_foldCarry: "unat (foldCarry a) = fold1 (unat a)"
proof -
  have "unat a < 2 ^ 32" using unsigned_less[of a] by simp
  then have "unat a div 65536 < 65536" by (simp add: less_mult_imp_div_less)
  moreover have "unat a mod 65536 < 65536" by simp
  ultimately have "unat a mod 65536 + unat a div 65536 < 2 ^ 32" by simp
  then show ?thesis
    by (simp add: foldCarry_def fold1_def unat_word_ariths unat_and_ffff unat_drop16)
qed

lemma unat_not16: "unat (NOT (w::u16)) = 65535 - unat w"
proof -
  have "NOT w = - 1 - w" by (simp add: not_eq_complement)
  moreover have "unat (- 1 - w) = unat (- 1 :: u16) - unat w"
    by (rule unat_sub) simp
  moreover have "unat (- 1 :: u16) = 65535"
    by (simp add: unsigned_minus_1_eq_mask mask_eq_exp_minus_1)
  ultimately show ?thesis by simp
qed

lemma ucast_fold_small: "unat (f::u32) \<le> 65535 \<Longrightarrow> unat (ucast f :: u16) = unat f"
  by (simp add: unsigned_ucast_eq take_bit_eq_mod)

lemma unat_ucast_up: "unat (ucast (c::u16) :: u32) = unat c"
proof -
  have "unat c < 2 ^ 16" using unsigned_less[of c] by simp
  then show ?thesis by (simp add: unsigned_ucast_eq take_bit_eq_mod)
qed

lemma csum_fixpoint: "csum (a + ucast (csum a)) = 0"
proof -
  let ?A = "unat a"
  have A: "?A < 2 ^ 32" using unsigned_less[of a] by simp
  note core = nat_core[OF A]
  let ?F = "fold1 (fold1 ?A)"
  have F: "unat (foldCarry (foldCarry a)) = ?F" by (simp add: unat_foldCarry)
  have c: "unat (csum a) = 65535 - ?F"
    using core F by (simp add: csum_def unat_not16 ucast_fold_small)
  have lt: "?A + (65535 - ?F) < 2 ^ 32" using core by blast
  have "unat (a + ucast (csum a)) = (?A + (65535 - ?F)) mod 2 ^ 32"
    by (simp only: unat_word_ariths unat_ucast_up c) simp
  then have s: "unat (a + ucast (csum a)) = ?A + (65535 - ?F)"
    using lt by (simp only: mod_less)
  have "unat (foldCarry (foldCarry (a + ucast (csum a)))) = fold1 (fold1 (?A + (65535 - ?F)))"
    by (simp only: unat_foldCarry s)
  also have "\<dots> = 65535" using core by blast
  finally have "unat (foldCarry (foldCarry (a + ucast (csum a)))) = 65535" .
  then have "unat (ucast (foldCarry (foldCarry (a + ucast (csum a)))) :: u16) = 65535"
    by (simp add: ucast_fold_small)
  then have "unat (csum (a + ucast (csum a))) = 0"
    by (simp add: csum_def unat_not16)
  then show ?thesis by (simp add: unat_eq_0)
qed

subsection \<open>Single stores\<close>

lemma word16_bytes16: "bytes16 be w = [b0, b1] \<Longrightarrow> word16 be b0 b1 = w"
  by (rule bit_word_eqI) (auto simp: bytes16_def word16_def bit_simps split: if_splits)

lemma length_bytes_st8: "length (bytes (st8 i v buf)) = length (bytes buf)"
  by (simp add: st8_def)

lemma stores_st8: "stores (st8 i v buf) = stores buf @ [i]"
  by (simp add: st8_def)

lemma length_bytes_storeBytes: "length (bytes (storeBytes i vs buf)) = length (bytes buf)"
  by (induction vs arbitrary: i buf) (simp_all add: length_bytes_st8)

lemma stores_storeBytes: "stores (storeBytes i vs buf) = stores buf @ [i ..< i + length vs]"
  by (induction vs arbitrary: i buf) (simp_all add: stores_st8 upt_rec)

lemma nth_bytes_st8:
  "bytes (st8 i v buf) ! j = (if j = i \<and> i < length (bytes buf) then v else bytes buf ! j)"
  by (simp add: st8_def)

lemma nth_bytes_storeBytes:
  "j < length (bytes buf) \<Longrightarrow>
   bytes (storeBytes i vs buf) ! j =
     (if i \<le> j \<and> j < i + length vs then vs ! (j - i) else bytes buf ! j)"
proof (induction vs arbitrary: i buf)
  case Nil
  then show ?case by auto
next
  case (Cons v vs)
  have len: "j < length (bytes (st8 i v buf))" using Cons.prems by (simp add: length_bytes_st8)
  show ?case
    using Cons.IH[OF len, of "Suc i"] Cons.prems
    by (auto simp: nth_bytes_st8 nth_Cons')
qed

subsection \<open>Loads and the sum of the words\<close>

lemma ld16_in: "i + 2 \<le> length mem \<Longrightarrow> ld16 be mem i = Some (word16 be (mem ! i) (mem ! (i + 1)))"
  by (simp add: ld16_def ld8_def)

lemma sumWords_Some:
  "words + 2 * n \<le> length mem \<Longrightarrow>
   sumWords be mem words n accum = Some (accum + (\<Sum>k<n. wordAt be mem (words + 2 * k)))"
proof (induction n arbitrary: words accum)
  case 0
  then show ?case by simp
next
  case (Suc n)
  have "sumWords be mem (words + 2) n (accum + wordAt be mem words)
        = Some (accum + wordAt be mem words + (\<Sum>k<n. wordAt be mem (words + 2 + 2 * k)))"
    using Suc.prems by (intro Suc.IH) simp
  moreover have "(\<Sum>k<Suc n. wordAt be mem (words + 2 * k))
        = wordAt be mem words + (\<Sum>k<n. wordAt be mem (words + 2 + 2 * k))"
    by (subst sum.lessThan_Suc_shift) (simp add: add.assoc)
  ultimately show ?case
    using Suc.prems by (simp add: ld16_in wordAt_def add.assoc)
qed

lemma calcChecksum_even:
  assumes "even len" "data + len \<le> length mem"
  shows "calcChecksum be mem data len = Some (csum (\<Sum>k<len div 2. wordAt be mem (data + 2 * k)))"
proof -
  have "data + 2 * (len div 2) \<le> length mem" using assms by simp
  then show ?thesis
    using assms(1) by (simp add: calcChecksum_def sumWords_Some csum_def Let_def)
qed

lemma calcChecksum_odd:
  assumes "odd len" "data + len \<le> length mem"
  shows "calcChecksum be mem data len
     = Some (csum ((\<Sum>k<len div 2. wordAt be mem (data + 2 * k)) + ucast (mem ! (data + len - 1))))"
proof -
  have "data + 2 * (len div 2) \<le> length mem" using assms by simp
  moreover have "data + len - 1 < length mem" using assms by (cases len) auto
  moreover have "len mod 2 = 1" using assms(1) by presburger
  ultimately show ?thesis
    by (simp add: calcChecksum_def sumWords_Some csum_def Let_def ld8_def)
qed

lemma ld8_in: "i < length mem \<Longrightarrow> ld8 mem i = Some (mem ! i)"
  by (simp add: ld8_def)

lemma ld32_in:
  "i + 4 \<le> length mem \<Longrightarrow>
   ld32 be mem i = Some (word32 be (mem ! i) (mem ! (i + 1)) (mem ! (i + 2)) (mem ! (i + 3)))"
  by (simp add: ld32_def ld8_def)

lemma calcChecksum_in_bounds:
  assumes "data + len \<le> length mem"
  shows "\<exists>c. calcChecksum be mem data len = Some c"
proof (cases "even len")
  case True
  then show ?thesis using calcChecksum_even[OF True assms] by blast
next
  case False
  then show ?thesis using calcChecksum_odd[OF False assms] by blast
qed

lemma wordAt_after_st16:
  assumes k: "k < len div 2" and len: "even len" "data + len \<le> length mem"
  shows "wordAt be (bytes (st16 be (data + 2) c \<lparr>bytes = mem, stores = []\<rparr>)) (data + 2 * k)
       = (if k = 1 then ucast c else wordAt be mem (data + 2 * k))"
proof -
  obtain b0 b1 where b: "bytes16 be c = [b0, b1]" by (cases be) (auto simp: bytes16_def)
  have in1: "data + 2 * k < length mem" and in2: "data + 2 * k + 1 < length mem"
    using k len by auto
  let ?mem' = "bytes (st16 be (data + 2) c \<lparr>bytes = mem, stores = []\<rparr>)"
  have nth: "?mem' ! j = (if data + 2 \<le> j \<and> j < data + 4 then [b0, b1] ! (j - (data + 2)) else mem ! j)"
    if "j < length mem" for j
    using that nth_bytes_storeBytes[of j "\<lparr>bytes = mem, stores = []\<rparr>" "data + 2" "[b0, b1]"]
    unfolding st16_def b by simp
  show ?thesis
  proof (cases "k = 1")
    case True
    then have "?mem' ! (data + 2 * k) = b0" and "?mem' ! (data + 2 * k + 1) = b1"
      using in1 in2 True nth[of "data + 2 * k"] nth[of "data + 2 * k + 1"] by auto
    then show ?thesis using True word16_bytes16[OF b] by (simp add: wordAt_def)
  next
    case False
    then have "?mem' ! (data + 2 * k) = mem ! (data + 2 * k)"
      and "?mem' ! (data + 2 * k + 1) = mem ! (data + 2 * k + 1)"
      using in1 in2 False nth[of "data + 2 * k"] nth[of "data + 2 * k + 1"] by auto
    then show ?thesis using False by (simp add: wordAt_def)
  qed
qed

text \<open>
  C2. For a buffer of even length whose 16-bit checksum field (offset 2 of the echo
  header at \<open>data\<close>) is zero: \<^verbatim>\<open>calcChecksum\<close> over the buffer returns a value, and with
  that value stored into the checksum field \<^verbatim>\<open>calcChecksum\<close> over the whole buffer
  returns zero. This holds for every length, also where the 32-bit accumulator wraps.
\<close>

theorem checksum_reembedded_is_zero:
  assumes "even len" and "4 \<le> len" and "data + len \<le> length mem"
    and "ld16 be mem (data + 2) = Some 0"
  shows "\<exists>c. calcChecksum be mem data len = Some c \<and>
             calcChecksum be (bytes (st16 be (data + 2) c \<lparr>bytes = mem, stores = []\<rparr>)) data len
               = Some 0"
proof -
  let ?n = "len div 2"
  let ?S = "\<Sum>k<?n. wordAt be mem (data + 2 * k)"
  let ?mem' = "bytes (st16 be (data + 2) (csum ?S) \<lparr>bytes = mem, stores = []\<rparr>)"
  have one: "1 \<in> {..<?n}" using assms(1,2) by auto
  have "data + 2 + 2 \<le> length mem" using assms(2,3) by simp
  then have "ld16 be mem (data + 2) = Some (word16 be (mem ! (data + 2)) (mem ! (data + 2 + 1)))"
    by (rule ld16_in)
  then have zero: "wordAt be mem (data + 2 * 1) = 0"
    using assms(4) by (simp add: wordAt_def)
  have first: "calcChecksum be mem data len = Some (csum ?S)"
    using assms(1,3) by (rule calcChecksum_even)
  have len': "data + len \<le> length ?mem'"
    using assms(3) by (simp add: st16_def length_bytes_storeBytes)
  have "(\<Sum>k<?n. wordAt be ?mem' (data + 2 * k))
      = (\<Sum>k<?n. if k = 1 then ucast (csum ?S) else wordAt be mem (data + 2 * k))"
  proof (rule sum.cong)
    fix k assume "k \<in> {..<?n}"
    then have "k < ?n" by simp
    then show "wordAt be ?mem' (data + 2 * k)
        = (if k = 1 then ucast (csum ?S) else wordAt be mem (data + 2 * k))"
      using assms(1,3) by (rule wordAt_after_st16)
  qed simp
  also have "\<dots> = ucast (csum ?S) + (\<Sum>k\<in>{..<?n} - {1}. wordAt be mem (data + 2 * k))"
    using one by (subst sum.remove[of _ 1]) (auto intro: sum.cong)
  also have "(\<Sum>k\<in>{..<?n} - {1}. wordAt be mem (data + 2 * k)) = ?S"
    using one zero by (subst (2) sum.remove[of _ 1]) auto
  finally have S': "(\<Sum>k<?n. wordAt be ?mem' (data + 2 * k)) = ?S + ucast (csum ?S)"
    by (simp add: add.commute)
  have "calcChecksum be ?mem' data len = Some (csum (\<Sum>k<?n. wordAt be ?mem' (data + 2 * k)))"
    using assms(1) len' by (rule calcChecksum_even)
  then have "calcChecksum be ?mem' data len = Some 0"
    by (simp only: S' csum_fixpoint)
  with first show ?thesis by blast
qed

theorem checksum_reembedded_is_zero_witness:
  "even (8::nat) \<and> (4::nat) \<le> 8 \<and> 0 + 8 \<le> length [8, 0, 0, 0, 0x12, 0x34, 0, 1 :: u8] \<and>
   ld16 False [8, 0, 0, 0, 0x12, 0x34, 0, 1] (0 + 2) = Some 0 \<and>
   (\<exists>c. calcChecksum False [8, 0, 0, 0, 0x12, 0x34, 0, 1] 0 8 = Some c \<and>
        calcChecksum False
          (bytes (st16 False (0 + 2) c \<lparr>bytes = [8, 0, 0, 0, 0x12, 0x34, 0, 1], stores = []\<rparr>)) 0 8
          = Some 0)"
proof -
  have h1: "even (8::nat)" and h2: "(4::nat) \<le> 8"
    and h3: "0 + 8 \<le> length [8, 0, 0, 0, 0x12, 0x34, 0, 1 :: u8]" by simp_all
  have h4: "ld16 False [8, 0, 0, 0, 0x12, 0x34, 0, 1] (0 + 2) = Some 0"
    by (simp add: ld16_def ld8_def word16_def)
  show ?thesis
    using h1 h2 h3 h4 checksum_reembedded_is_zero[OF h1 h2 h3 h4] by blast
qed

text \<open>
  C9. For a buffer of odd length, \<^verbatim>\<open>calcChecksum\<close> returns the complement of the twice
  folded sum of every complete 16-bit word of the buffer (the words at offsets 0, 2, ...
  below \<open>len - 1\<close>, each once) and the last byte, added once as a value of its own; over
  the buffer without its last byte it returns the same with the words alone.
\<close>

theorem odd_length_trailing_byte:
  assumes "odd len" and "data + len \<le> length mem"
  shows "calcChecksum be mem data len
           = Some (NOT (ucast (foldCarry (foldCarry
               ((\<Sum>k<len div 2.
                    ucast (word16 be (mem ! (data + 2 * k)) (mem ! (data + 2 * k + 1))))
                + ucast (mem ! (data + len - 1)))))))
         \<and> calcChecksum be mem data (len - 1)
           = Some (NOT (ucast (foldCarry (foldCarry
               (\<Sum>k<len div 2.
                    ucast (word16 be (mem ! (data + 2 * k)) (mem ! (data + 2 * k + 1))))))))"
proof -
  have ev: "even (len - 1)" and le: "data + (len - 1) \<le> length mem"
    and d: "(len - 1) div 2 = len div 2"
    using assms by (auto elim: oddE)
  have e: "calcChecksum be mem data (len - 1)
      = Some (csum (\<Sum>k<len div 2. wordAt be mem (data + 2 * k)))"
    using calcChecksum_even[OF ev le, of be] by (simp only: d)
  have o: "calcChecksum be mem data len
      = Some (csum ((\<Sum>k<len div 2. wordAt be mem (data + 2 * k))
                    + ucast (mem ! (data + len - 1))))"
    using assms by (rule calcChecksum_odd)
  show ?thesis
    unfolding e o by (simp add: csum_def wordAt_def)
qed

lemma calcChecksum_three_bytes:
  "calcChecksum False [1, 2, 3] 0 3 = Some 0xFDFB"
  "calcChecksum False [1, 2, 3] 0 2 = Some 0xFDFE"
  by code_simp+

theorem odd_length_trailing_byte_witness:
  "odd (3::nat) \<and> 0 + 3 \<le> length [1, 2, 3 :: u8] \<and>
   calcChecksum False [1, 2, 3] 0 3
     = Some (NOT (ucast (foldCarry (foldCarry
         ((\<Sum>k<3 div 2.
              ucast (word16 False ([1, 2, 3] ! (0 + 2 * k)) ([1, 2, 3] ! (0 + 2 * k + 1))))
          + ucast ([1, 2, 3 :: u8] ! (0 + 3 - 1))))))) \<and>
   calcChecksum False [1, 2, 3] 0 (3 - 1)
     = Some (NOT (ucast (foldCarry (foldCarry
         (\<Sum>k<3 div 2.
              ucast (word16 False ([1, 2, 3] ! (0 + 2 * k)) ([1, 2, 3] ! (0 + 2 * k + 1))))))))"
proof -
  have h1: "odd (3::nat)" and h2: "0 + 3 \<le> length [1, 2, 3 :: u8]" by simp_all
  show ?thesis
    using h1 h2 odd_length_trailing_byte [OF h1 h2, of False] by blast
qed

section \<open>Stores, byte order and the packet as built\<close>

subsection \<open>Stores of words, and byte order\<close>

lemma length_bytes16 [simp]: "length (bytes16 be w) = 2"
  by (simp add: bytes16_def)

lemma length_bytes32 [simp]: "length (bytes32 be w) = 4"
  by (simp add: bytes32_def Let_def)

lemma length_bytes64 [simp]: "length (bytes64 be w) = 8"
  by (simp add: bytes64_def Let_def)

lemma length_bytes_rmw8: "length (bytes (rmw8 i f buf)) = length (bytes buf)"
  by (simp add: rmw8_def length_bytes_st8)

lemma stores_rmw8: "stores (rmw8 i f buf) = stores buf @ [i]"
  by (simp add: rmw8_def stores_st8)

lemma nth_bytes_rmw8:
  "bytes (rmw8 i f buf) ! j = (if j = i \<and> i < length (bytes buf) then f (bytes buf ! i) else bytes buf ! j)"
  by (simp add: rmw8_def nth_bytes_st8)

lemma length_bytes_st16: "length (bytes (st16 be i w buf)) = length (bytes buf)"
  by (simp add: st16_def length_bytes_storeBytes)

lemma length_bytes_st32: "length (bytes (st32 be i w buf)) = length (bytes buf)"
  by (simp add: st32_def length_bytes_storeBytes)

lemma length_bytes_st64: "length (bytes (st64 be i w buf)) = length (bytes buf)"
  by (simp add: st64_def length_bytes_storeBytes)

lemma stores_st16: "stores (st16 be i w buf) = stores buf @ [i ..< i + 2]"
  by (simp add: st16_def stores_storeBytes)

lemma stores_st32: "stores (st32 be i w buf) = stores buf @ [i ..< i + 4]"
  by (simp add: st32_def stores_storeBytes)

lemma stores_st64: "stores (st64 be i w buf) = stores buf @ [i ..< i + 8]"
  by (simp add: st64_def stores_storeBytes)

lemma nth_bytes_st16:
  "j < length (bytes buf) \<Longrightarrow>
   bytes (st16 be i w buf) ! j = (if i \<le> j \<and> j < i + 2 then bytes16 be w ! (j - i) else bytes buf ! j)"
  by (simp add: st16_def nth_bytes_storeBytes)

lemma nth_bytes_st32:
  "j < length (bytes buf) \<Longrightarrow>
   bytes (st32 be i w buf) ! j = (if i \<le> j \<and> j < i + 4 then bytes32 be w ! (j - i) else bytes buf ! j)"
  by (simp add: st32_def nth_bytes_storeBytes)

lemma nth_bytes_st64:
  "j < length (bytes buf) \<Longrightarrow>
   bytes (st64 be i w buf) ! j = (if i \<le> j \<and> j < i + 8 then bytes64 be w ! (j - i) else bytes buf ! j)"
  by (simp add: st64_def nth_bytes_storeBytes)

lemmas length_bytes_simps =
  length_bytes_st8 length_bytes_rmw8 length_bytes_st16 length_bytes_st32 length_bytes_st64

lemmas nth_bytes_simps =
  nth_bytes_st8 nth_bytes_rmw8 nth_bytes_st16 nth_bytes_st32 nth_bytes_st64

lemmas stores_simps = stores_st8 stores_rmw8 stores_st16 stores_st32 stores_st64

lemma ff00: "(0xFF00 :: u32) = push_bit 8 (mask 8)"
  by (simp add: mask_eq_exp_minus_1 push_bit_eq_mult)

lemma bswap32_alt:
  "bswap32 w = push_bit 24 w OR push_bit 8 (w AND push_bit 8 (mask 8))
     OR (drop_bit 8 w AND push_bit 8 (mask 8)) OR drop_bit 24 w"
  by (simp only: bswap32_def ff00)

lemma bit_bswap32:
  "bit (bswap32 w) n \<longleftrightarrow>
     (if n < 8 then bit w (n + 24) else if n < 16 then bit w (n + 8)
      else if n < 24 then bit w (n - 8) else n < 32 \<and> bit w (n - 24))"
proof -
  consider "n < 8" | "8 \<le> n" "n < 16" | "16 \<le> n" "n < 24" | "24 \<le> n" "n < 32" | "32 \<le> n"
    by linarith
  then show ?thesis
  proof cases
    case 1
    then show ?thesis by (auto simp: bswap32_alt bit_simps add.commute dest: bit_imp_le_length)
  next
    case 2
    then show ?thesis by (auto simp: bswap32_alt bit_simps add.commute dest: bit_imp_le_length)
  next
    case 3
    then show ?thesis by (auto simp: bswap32_alt bit_simps add.commute dest: bit_imp_le_length)
  next
    case 4
    then show ?thesis by (auto simp: bswap32_alt bit_simps add.commute dest: bit_imp_le_length)
  next
    case 5
    then show ?thesis by (auto simp: bswap32_alt bit_simps add.commute dest: bit_imp_le_length)
  qed
qed

lemma bswap32_bswap32: "bswap32 (bswap32 w) = w"
proof (rule bit_word_eqI)
  fix n assume n: "n < LENGTH(32)"
  consider "n < 8" | "8 \<le> n" "n < 16" | "16 \<le> n" "n < 24" | "24 \<le> n" by linarith
  then show "bit (bswap32 (bswap32 w)) n = bit w n"
  proof cases
    case 1
    then have "bit (bswap32 (bswap32 w)) n = bit (bswap32 w) (n + 24)"
      by (simp add: bit_bswap32)
    also have "\<dots> = bit w (n + 24 - 24)"
      using 1 by (subst bit_bswap32) simp
    finally show ?thesis by simp
  next
    case 2
    then have "bit (bswap32 (bswap32 w)) n = bit (bswap32 w) (n + 8)"
      by (simp add: bit_bswap32)
    also have "\<dots> = bit w (n + 8 - 8)"
      using 2 by (subst bit_bswap32) simp
    finally show ?thesis by simp
  next
    case 3
    then have "bit (bswap32 (bswap32 w)) n = bit (bswap32 w) (n - 8)"
      by (simp add: bit_bswap32)
    also have "\<dots> = bit w (n - 8 + 8)"
      using 3 by (subst bit_bswap32) auto
    finally show ?thesis using 3 by simp
  next
    case 4
    then have "bit (bswap32 (bswap32 w)) n = bit (bswap32 w) (n - 24)"
      using n by (simp add: bit_bswap32)
    also have "\<dots> = bit w (n - 24 + 24)"
      using 4 n by (subst bit_bswap32) auto
    finally show ?thesis using 4 by simp
  qed
qed

lemma word32_bytes32: "bytes32 be w = [b0, b1, b2, b3] \<Longrightarrow> word32 be b0 b1 b2 b3 = w"
proof (rule bit_word_eqI)
  fix n assume n: "n < LENGTH(32)"
  assume b: "bytes32 be w = [b0, b1, b2, b3]"
  consider "n < 8" | "8 \<le> n" "n < 16" | "16 \<le> n" "n < 24" | "24 \<le> n" by linarith
  then show "bit (word32 be b0 b1 b2 b3) n = bit w n"
    using b n by cases (auto simp: bytes32_def word32_def bit_simps Let_def split: if_splits)
qed

lemma bswap16_bswap16: "bswap16 (bswap16 w) = w"
  by (rule bit_word_eqI) (auto simp: bswap16_def bit_simps)

lemma ntohs_htons: "ntohs be (htons be w) = w"
  by (simp add: ntohs_def htons_def bswap16_bswap16)

lemma ntohl_htonl: "ntohl be (htonl be w) = w"
  by (simp add: ntohl_def htonl_def bswap32_bswap32)

lemma word16_nth: "word16 be (bytes16 be w ! 0) (bytes16 be w ! Suc 0) = w"
proof -
  obtain b0 b1 where b: "bytes16 be w = [b0, b1]" by (cases be) (auto simp: bytes16_def)
  then show ?thesis using word16_bytes16[OF b] by simp
qed

lemma word32_nth:
  "word32 be (bytes32 be w ! 0) (bytes32 be w ! Suc 0) (bytes32 be w ! 2) (bytes32 be w ! 3) = w"
proof -
  obtain b0 b1 b2 b3 where b: "bytes32 be w = [b0, b1, b2, b3]"
    by (cases be) (auto simp: bytes32_def Let_def)
  then show ?thesis using word32_bytes32[OF b] by (simp add: eval_nat_numeral)
qed

lemma toInt_id: "- (2 ^ 31) \<le> x \<Longrightarrow> x < 2 ^ 31 \<Longrightarrow> toInt x = x"
  by (simp add: toInt_def)

lemma toSizeT_id: "0 \<le> x \<Longrightarrow> x < 2 ^ 64 \<Longrightarrow> toSizeT x = nat x"
  by (simp add: toSizeT_def)

lemma unat_word_of_int16: "0 \<le> x \<Longrightarrow> x < 65536 \<Longrightarrow> unat (word_of_int x :: u16) = nat x"
  by (simp add: unat_eq_nat_uint uint_word_of_int)

subsection \<open>IP header\<close>

lemma length_bytes_writeIpHeader:
  "length (bytes (writeIpHeader be ident address rps buf)) = length (bytes buf)"
  by (simp add: writeIpHeader_def Let_def set_ip_v_def set_ip_hl_def length_bytes_simps)

lemma stores_writeIpHeader:
  "stores (writeIpHeader be ident address rps buf)
     = stores buf @ [12, 13, 14, 15, 0, 0, 1, 2, 3, 4, 5, 6, 7, 8, 9, 10, 11, 16, 17, 18, 19]"
  by (simp add: writeIpHeader_def Let_def set_ip_v_def set_ip_hl_def stores_simps upt_rec)

lemma nth_writeIpHeader_frame:
  "20 \<le> j \<Longrightarrow> j < length (bytes buf) \<Longrightarrow>
   bytes (writeIpHeader be ident address rps buf) ! j = bytes buf ! j"
  by (simp add: writeIpHeader_def Let_def set_ip_v_def set_ip_hl_def length_bytes_simps
      nth_bytes_simps)

lemma nibbles: "((x::u8) AND 15 OR 64) AND 240 OR 5 = 69"
  by (simp add: bit.conj_disj_distrib2 and.assoc)

lemma nth_writeIpHeader:
  assumes "20 \<le> length (bytes buf)"
  shows "bytes (writeIpHeader be ident address rps buf) ! 0 = 0x45"
    and "bytes (writeIpHeader be ident address rps buf) ! 1 = 0"
    and "bytes (writeIpHeader be ident address rps buf) ! 2 = bytes16 be (word_of_int rps) ! 0"
    and "bytes (writeIpHeader be ident address rps buf) ! 3 = bytes16 be (word_of_int rps) ! 1"
    and "bytes (writeIpHeader be ident address rps buf) ! 4 = bytes16 be (htons be ident) ! 0"
    and "bytes (writeIpHeader be ident address rps buf) ! 5 = bytes16 be (htons be ident) ! 1"
    and "bytes (writeIpHeader be ident address rps buf) ! 8 = 255"
    and "bytes (writeIpHeader be ident address rps buf) ! 9 = 1"
    and "bytes (writeIpHeader be ident address rps buf) ! 16 = bytes32 be (htonl be address) ! 0"
    and "bytes (writeIpHeader be ident address rps buf) ! 17 = bytes32 be (htonl be address) ! 1"
    and "bytes (writeIpHeader be ident address rps buf) ! 18 = bytes32 be (htonl be address) ! 2"
    and "bytes (writeIpHeader be ident address rps buf) ! 19 = bytes32 be (htonl be address) ! 3"
proof -
  have ne: "bytes buf \<noteq> []" using assms by auto
  show "bytes (writeIpHeader be ident address rps buf) ! 0 = 0x45"
    and "bytes (writeIpHeader be ident address rps buf) ! 1 = 0"
    and "bytes (writeIpHeader be ident address rps buf) ! 2 = bytes16 be (word_of_int rps) ! 0"
    and "bytes (writeIpHeader be ident address rps buf) ! 3 = bytes16 be (word_of_int rps) ! 1"
    and "bytes (writeIpHeader be ident address rps buf) ! 4 = bytes16 be (htons be ident) ! 0"
    and "bytes (writeIpHeader be ident address rps buf) ! 5 = bytes16 be (htons be ident) ! 1"
    and "bytes (writeIpHeader be ident address rps buf) ! 8 = 255"
    and "bytes (writeIpHeader be ident address rps buf) ! 9 = 1"
    and "bytes (writeIpHeader be ident address rps buf) ! 16 = bytes32 be (htonl be address) ! 0"
    and "bytes (writeIpHeader be ident address rps buf) ! 17 = bytes32 be (htonl be address) ! 1"
    and "bytes (writeIpHeader be ident address rps buf) ! 18 = bytes32 be (htonl be address) ! 2"
    and "bytes (writeIpHeader be ident address rps buf) ! 19 = bytes32 be (htonl be address) ! 3"
    using assms ne
    by (simp_all add: writeIpHeader_def Let_def set_ip_v_def set_ip_hl_def length_bytes_simps
        nth_bytes_simps nibbles)
qed

subsection \<open>Echo header\<close>

lemma length_bytes_writeEchoHeader:
  "length (bytes (writeEchoHeader be ident seq packet buf)) = length (bytes buf)"
  by (simp add: writeEchoHeader_def Let_def length_bytes_simps)

lemma stores_writeEchoHeader:
  "stores (writeEchoHeader be ident seq packet buf) = stores buf @ [packet ..< packet + 8]"
  by (simp add: writeEchoHeader_def Let_def stores_simps upt_rec)

lemma nth_writeEchoHeader_frame:
  "j < packet \<or> packet + 8 \<le> j \<Longrightarrow> j < length (bytes buf) \<Longrightarrow>
   bytes (writeEchoHeader be ident seq packet buf) ! j = bytes buf ! j"
  by (auto simp: writeEchoHeader_def Let_def length_bytes_simps nth_bytes_simps)

lemma nth_writeEchoHeader:
  assumes "packet + 8 \<le> length (bytes buf)"
  shows "bytes (writeEchoHeader be ident seq packet buf) ! packet = 8"
    and "bytes (writeEchoHeader be ident seq packet buf) ! (packet + 1) = 0"
    and "bytes (writeEchoHeader be ident seq packet buf) ! (packet + 2) = 0"
    and "bytes (writeEchoHeader be ident seq packet buf) ! (packet + 3) = 0"
    and "bytes (writeEchoHeader be ident seq packet buf) ! (packet + 4) = bytes16 be (htons be ident) ! 0"
    and "bytes (writeEchoHeader be ident seq packet buf) ! (packet + 5) = bytes16 be (htons be ident) ! 1"
    and "bytes (writeEchoHeader be ident seq packet buf) ! (packet + 6) = bytes16 be (htons be seq) ! 0"
    and "bytes (writeEchoHeader be ident seq packet buf) ! (packet + 7) = bytes16 be (htons be seq) ! 1"
  using assms
  by (simp_all add: writeEchoHeader_def Let_def length_bytes_simps nth_bytes_simps bytes16_def)

subsection \<open>Payload and timestamp\<close>

lemma length_bytes_fillPayload:
  "length (bytes (fillPayload packet n i buf)) = length (bytes buf)"
proof (induction packet n i buf rule: fillPayload.induct)
  case (1 packet n i buf)
  then show ?case
    by (subst fillPayload.simps) (simp add: length_bytes_st8)
qed

lemma stores_fillPayload:
  "0 \<le> i \<Longrightarrow>
   stores (fillPayload packet n i buf) = stores buf @ map (\<lambda>k. packet + 8 + k) [nat i ..< nat n]"
proof (induction packet n i buf rule: fillPayload.induct)
  case (1 packet n i buf)
  show ?case
  proof (cases "i < n")
    case True
    then have "nat i < nat n" and "Suc (nat i) = nat (i + 1)"
      using "1.prems" by simp_all
    then have "[nat i ..< nat n] = nat i # [nat (i + 1) ..< nat n]"
      by (simp only: upt_conv_Cons)
    then show ?thesis
      using True "1.IH" "1.prems"
      by (subst fillPayload.simps) (simp add: stores_st8)
  next
    case False
    then show ?thesis by (subst fillPayload.simps) simp
  qed
qed

lemma nth_fillPayload_frame:
  "0 \<le> i \<Longrightarrow> j < packet + 8 \<Longrightarrow>
   bytes (fillPayload packet n i buf) ! j = bytes buf ! j"
proof (induction packet n i buf rule: fillPayload.induct)
  case (1 packet n i buf)
  then show ?case
    by (subst fillPayload.simps) (simp add: nth_bytes_st8)
qed

lemma length_bytes_writeTimestamp:
  "length (bytes (writeTimestamp pf s u pos buf)) = length (bytes buf)"
  by (simp add: writeTimestamp_def length_bytes_simps split: os.split)

lemma stores_writeTimestamp:
  "stores (writeTimestamp pf s u pos buf)
     = stores buf @ [pos ..< pos + 2 * sizeofTimestampField pf]"
proof -
  have 4: "[pos ..< pos + 4 + 4] = [pos ..< pos + 4] @ [pos + 4 ..< pos + 4 + 4]"
    by (rule upt_add_eq_append) simp
  have 8: "[pos ..< pos + 8 + 8] = [pos ..< pos + 8] @ [pos + 8 ..< pos + 8 + 8]"
    by (rule upt_add_eq_append) simp
  show ?thesis
  proof (cases "system pf")
    case Mac
    then show ?thesis
      using 4 by (simp add: writeTimestamp_def sizeofTimestampField_def stores_simps add.assoc)
  next
    case Linux
    then show ?thesis
      using 8 by (simp add: writeTimestamp_def sizeofTimestampField_def stores_simps add.assoc)
  qed
qed

lemma nth_writeTimestamp_frame:
  "j < pos \<Longrightarrow> j < length (bytes buf) \<Longrightarrow>
   bytes (writeTimestamp pf s u pos buf) ! j = bytes buf ! j"
  by (simp add: writeTimestamp_def length_bytes_simps nth_bytes_simps split: os.split)

subsection \<open>The packet as built\<close>

lemma length_bytes_buildPacket:
  "length (bytes (buildPacket pf self address n e rps)) = nat rps"
  by (simp add: buildPacket_def Let_def length_bytes_writeTimestamp length_bytes_fillPayload
      length_bytes_writeEchoHeader length_bytes_writeIpHeader)

lemma stores_buildPacket:
  "stores (buildPacket pf self address n e rps)
     = [12, 13, 14, 15, 0, 0, 1, 2, 3, 4, 5, 6, 7, 8, 9, 10, 11, 16, 17, 18, 19] @ [20 ..< 28]
       @ map (\<lambda>k. 28 + k) [0 ..< nat n] @ [28 ..< 28 + 2 * sizeofTimestampField pf]"
  by (simp add: buildPacket_def Let_def stores_writeTimestamp stores_fillPayload
      stores_writeEchoHeader stores_writeIpHeader)

lemma nth_buildPacket_header:
  assumes "j < 28" "28 \<le> nat rps"
  shows "bytes (buildPacket pf self address n e rps) ! j
     = bytes (writeEchoHeader (bigEndian pf) (identifier self) (nextSequence self) 20
         (writeIpHeader (bigEndian pf) (identifier self) address rps
           \<lparr>bytes = replicate (nat rps) 0, stores = []\<rparr>)) ! j"
  using assms
  by (simp add: buildPacket_def Let_def nth_writeTimestamp_frame nth_fillPayload_frame
      length_bytes_fillPayload length_bytes_writeEchoHeader length_bytes_writeIpHeader)

subsection \<open>Both headers, and what the checksum reads\<close>

lemma nth_header:
  fixes be :: bool and ident seq :: u16 and address :: u32 and rps :: int and buf :: buffer
  assumes "28 \<le> length (bytes buf)"
  defines "hdr \<equiv> bytes (writeEchoHeader be ident seq 20 (writeIpHeader be ident address rps buf))"
  shows "hdr ! 0 = 0x45"
    and "word16 be (hdr ! 2) (hdr ! 3) = word_of_int rps"
    and "word16 be (hdr ! 4) (hdr ! 5) = htons be ident"
    and "hdr ! 8 = 255" and "hdr ! 9 = 1"
    and "word32 be (hdr ! 16) (hdr ! 17) (hdr ! 18) (hdr ! 19) = htonl be address"
    and "hdr ! 20 = 8" and "hdr ! 21 = 0" and "hdr ! 22 = 0" and "hdr ! 23 = 0"
    and "word16 be (hdr ! 24) (hdr ! 25) = htons be ident"
    and "word16 be (hdr ! 26) (hdr ! 27) = htons be seq"
proof -
  let ?ip = "writeIpHeader be ident address rps buf"
  have l20: "20 \<le> length (bytes buf)" using assms(1) by simp
  have lip: "20 + 8 \<le> length (bytes ?ip)"
    using assms(1) by (simp add: length_bytes_writeIpHeader)
  have ip: "hdr ! j = bytes ?ip ! j" if "j < 20" for j
    unfolding hdr_def using that assms(1)
    by (intro nth_writeEchoHeader_frame) (simp_all add: length_bytes_writeIpHeader)
  note ipv = nth_writeIpHeader[OF l20, of be ident address rps]
  note ev = nth_writeEchoHeader[OF lip, of be ident seq, folded hdr_def, simplified]
  show "hdr ! 0 = 0x45" "hdr ! 8 = 255" "hdr ! 9 = 1"
    by (simp_all add: ip ipv)
  show "word16 be (hdr ! 2) (hdr ! 3) = word_of_int rps"
    by (simp add: ip ipv word16_nth)
  show "word16 be (hdr ! 4) (hdr ! 5) = htons be ident"
    by (simp add: ip ipv word16_nth)
  show "word32 be (hdr ! 16) (hdr ! 17) (hdr ! 18) (hdr ! 19) = htonl be address"
    by (simp add: ip ipv word32_nth)
  show "hdr ! 20 = 8" "hdr ! 21 = 0" "hdr ! 22 = 0" "hdr ! 23 = 0"
    using ev by simp_all
  show "word16 be (hdr ! 24) (hdr ! 25) = htons be ident"
    using ev by (simp add: word16_nth)
  show "word16 be (hdr ! 26) (hdr ! 27) = htons be seq"
    using ev by (simp add: word16_nth)
qed

lemma calcChecksum_cong:
  assumes in_bounds: "data + len \<le> length mem" and same_length: "length mem' = length mem"
    and same: "\<And>j. data \<le> j \<Longrightarrow> j < data + len \<Longrightarrow> mem' ! j = mem ! j"
  shows "calcChecksum be mem' data len = calcChecksum be mem data len"
proof -
  have in_bounds': "data + len \<le> length mem'" using in_bounds same_length by simp
  have w: "wordAt be mem' (data + 2 * k) = wordAt be mem (data + 2 * k)" if "k < len div 2" for k
  proof -
    have "data + 2 * k + 1 < data + len" using that by auto
    then show ?thesis using same[of "data + 2 * k"] same[of "data + 2 * k + 1"]
      by (simp add: wordAt_def)
  qed
  have s: "(\<Sum>k<len div 2. wordAt be mem' (data + 2 * k))
         = (\<Sum>k<len div 2. wordAt be mem (data + 2 * k))"
    by (rule sum.cong) (simp_all add: w)
  show ?thesis
  proof (cases "even len")
    case True
    then show ?thesis
      using calcChecksum_even[OF True in_bounds, of be] calcChecksum_even[OF True in_bounds', of be]
      by (simp only: s)
  next
    case False
    then have "0 < len" by (cases len) auto
    then have "mem' ! (data + len - 1) = mem ! (data + len - 1)"
      by (intro same) auto
    then show ?thesis
      using calcChecksum_odd[OF False in_bounds, of be] calcChecksum_odd[OF False in_bounds', of be]
      by (simp only: s)
  qed
qed

lemma version_nibbles: "drop_bit 4 (0x45 :: u8) = 4" "(0x45 :: u8) AND 0x0F = 5"
  by simp_all

section \<open>The reply listener\<close>

lemma onReadyRead_checked:
  assumes ok: "passesIpChecks packet"
    and ck: "calcChecksum be packet (ihl packet) (length packet - ihl packet) = Some c"
  shows "onReadyRead be self (RecvBytes packet) =
     Some \<lparr>rxLog = (if c \<noteq> 0 then [CorruptIcmp (srcAddress be packet)] else []),
           receivedReply =
             (if packet ! ihl packet = 0 \<and> packet ! (ihl packet + 1) = 0 \<and>
                 echoIdentifier be packet = identifier self
              then [srcAddress be packet] else [])\<rparr>"
proof -
  have len: "20 \<le> length packet" and v: "drop_bit 4 (packet ! 0) = 4"
    and h1: "20 \<le> ihl packet" and h2: "ihl packet \<le> length packet"
    and h3: "8 \<le> length packet - ihl packet" and p: "packet ! 9 = 1"
    using ok by (simp_all add: passesIpChecks_def)
  have l0: "ld8 packet 0 = Some (packet ! 0)" and l9: "ld8 packet 9 = Some 1"
    using len p by (auto simp: ld8_def)
  have lt: "ld8 packet (ihl packet) = Some (packet ! ihl packet)"
    and lc: "ld8 packet (Suc (ihl packet)) = Some (packet ! Suc (ihl packet))"
    using h2 h3 by (auto simp: ld8_def)
  have li: "ld16 be packet (ihl packet + 4)
      = Some (word16 be (packet ! (ihl packet + 4)) (packet ! (ihl packet + 5)))"
    using h2 h3 by (auto simp: ld16_def ld8_def add.commute)
  have ls: "ld32 be packet 12
      = Some (word32 be (packet ! 12) (packet ! 13) (packet ! 14) (packet ! 15))"
    using len by (auto simp: ld32_def ld8_def)
  have hb: "unat (packet ! 0 AND 0x0F) * 4 = ihl packet" by (simp add: ihl_def)
  show ?thesis
    using len v h1 h2 h3
    by (simp add: onReadyRead_def Let_def l0 l9 hb ck lt lc li ls srcAddress_def
        echoIdentifier_def)
qed

lemma onReadyRead_total: "\<exists>r. onReadyRead be self rr = Some r"
proof (cases rr)
  case (RecvFailed err)
  then show ?thesis by (simp add: onReadyRead_def)
next
  case (RecvBytes packet)
  show ?thesis
  proof (cases "passesIpChecks packet")
    case True
    then have "ihl packet + (length packet - ihl packet) \<le> length packet"
      by (simp add: passesIpChecks_def)
    then obtain c where "calcChecksum be packet (ihl packet) (length packet - ihl packet) = Some c"
      using calcChecksum_in_bounds by blast
    then show ?thesis using onReadyRead_checked[OF True] RecvBytes by simp
  next
    case False
    show ?thesis
    proof (cases "length packet < 20")
      case True
      then show ?thesis using RecvBytes by (simp add: onReadyRead_def)
    next
      case long: False
      then have l0: "ld8 packet 0 = Some (packet ! 0)" and l9: "ld8 packet 9 = Some (packet ! 9)"
        by (auto simp: ld8_def)
      have hb: "unat (packet ! 0 AND 0x0F) * 4 = ihl packet" by (simp add: ihl_def)
      show ?thesis
        using False long RecvBytes
        by (auto simp: onReadyRead_def Let_def l0 l9 hb passesIpChecks_def)
    qed
  qed
qed

text \<open>
  C1. Every byte buffer handed to \<^verbatim>\<open>onReadyRead\<close> is processed without a load outside
  the bytes read (the result is never \<open>None\<close>); and a buffer shorter than 20 bytes, or
  whose version nibble is not 4, or whose header-length nibble gives fewer than 20
  bytes, or more than were read, or leaves fewer than 8 bytes after the header, is
  rejected with one warning and no \<^verbatim>\<open>receivedReply\<close>.
\<close>

theorem malformed_rejected_in_bounds:
  "(\<exists>r. onReadyRead be self (RecvBytes packet) = Some r) \<and>
   (length packet < 20 \<or> drop_bit 4 (packet ! 0) \<noteq> 4 \<or> ihl packet < 20 \<or>
    length packet < ihl packet \<or> length packet - ihl packet < 8 \<longrightarrow>
    (\<exists>w. onReadyRead be self (RecvBytes packet) = Some \<lparr>rxLog = [w], receivedReply = []\<rparr>))"
proof (intro conjI impI)
  show "\<exists>r. onReadyRead be self (RecvBytes packet) = Some r" by (rule onReadyRead_total)
next
  assume bad: "length packet < 20 \<or> drop_bit 4 (packet ! 0) \<noteq> 4 \<or> ihl packet < 20 \<or>
    length packet < ihl packet \<or> length packet - ihl packet < 8"
  show "\<exists>w. onReadyRead be self (RecvBytes packet) = Some \<lparr>rxLog = [w], receivedReply = []\<rparr>"
  proof (cases "length packet < 20")
    case True
    then show ?thesis by (simp add: onReadyRead_def)
  next
    case False
    then have l0: "ld8 packet 0 = Some (packet ! 0)" by (auto simp: ld8_def)
    have hb: "unat (packet ! 0 AND 0x0F) * 4 = ihl packet" by (simp add: ihl_def)
    show ?thesis
      using False bad by (auto simp: onReadyRead_def Let_def l0 hb)
  qed
qed

theorem malformed_rejected_in_bounds_witness:
  "length [0x45, 0, 0 :: u8] < 20 \<and>
   (\<exists>r. onReadyRead False exampleProber (RecvBytes [0x45, 0, 0]) = Some r) \<and>
   (\<exists>w. onReadyRead False exampleProber (RecvBytes [0x45, 0, 0])
          = Some \<lparr>rxLog = [w], receivedReply = []\<rparr>)"
  using malformed_rejected_in_bounds [of False exampleProber "[0x45, 0, 0]"]
  by simp

text \<open>
  C3, as the code has it. For a datagram that passes the length, version and protocol
  checks: if the ICMP type is not 0, or the code is not 0, or the embedded identifier is
  not this prober's, no \<^verbatim>\<open>receivedReply\<close> is emitted, and the rejection itself logs
  nothing: the log holds the corruption warning of the checksum step exactly when the
  checksum validation result is nonzero, and nothing else. So a prober handed a reply
  that carries another prober's, different, identifier emits no \<^verbatim>\<open>receivedReply\<close>.
\<close>

theorem foreign_reply_not_delivered:
  assumes "passesIpChecks packet"
  shows "(packet ! ihl packet \<noteq> 0 \<or> packet ! (ihl packet + 1) \<noteq> 0 \<or>
          echoIdentifier be packet \<noteq> identifier self \<longrightarrow>
          (\<exists>c. calcChecksum be packet (ihl packet) (length packet - ihl packet) = Some c \<and>
               onReadyRead be self (RecvBytes packet) =
                 Some \<lparr>rxLog = (if c \<noteq> 0 then [CorruptIcmp (srcAddress be packet)] else []),
                       receivedReply = []\<rparr>)) \<and>
         (identifier self \<noteq> identifier other \<and> echoIdentifier be packet = identifier other \<longrightarrow>
          (\<exists>r. onReadyRead be self (RecvBytes packet) = Some r \<and> receivedReply r = []))"
proof -
  have "ihl packet + (length packet - ihl packet) \<le> length packet"
    using assms by (simp add: passesIpChecks_def)
  then obtain c where c: "calcChecksum be packet (ihl packet) (length packet - ihl packet) = Some c"
    using calcChecksum_in_bounds by blast
  show ?thesis
    using onReadyRead_checked[OF assms c, of self] c by auto
qed

theorem foreign_reply_not_delivered_witness:
  "passesIpChecks (exampleDatagram 8) \<and>
   exampleDatagram 8 ! ihl (exampleDatagram 8) \<noteq> 0 \<and>
   (\<exists>c. calcChecksum False (exampleDatagram 8) (ihl (exampleDatagram 8))
          (length (exampleDatagram 8) - ihl (exampleDatagram 8)) = Some c \<and>
        onReadyRead False exampleProber (RecvBytes (exampleDatagram 8)) =
          Some \<lparr>rxLog = (if c \<noteq> 0 then [CorruptIcmp (srcAddress False (exampleDatagram 8))]
                         else []),
                receivedReply = []\<rparr>)"
proof -
  have h: "passesIpChecks (exampleDatagram 8)"
    by (simp add: passesIpChecks_def exampleDatagram_def ihl_def)
  have t: "exampleDatagram 8 ! ihl (exampleDatagram 8) \<noteq> 0"
    by (simp add: exampleDatagram_def ihl_def)
  show ?thesis
    using h t foreign_reply_not_delivered [OF h, of False exampleProber] by blast
qed

text \<open>
  The claim as written also says that nothing is logged. An echo request (type 8) from
  10.0.0.1 with a checksum field that does not match passes the header checks, is not
  delivered, and leaves the corruption warning in the log.
\<close>

theorem foreign_reply_logged_counterexample:
  "passesIpChecks (exampleDatagram 8) \<and>
   exampleDatagram 8 ! ihl (exampleDatagram 8) \<noteq> 0 \<and>
   onReadyRead False exampleProber (RecvBytes (exampleDatagram 8)) =
     Some \<lparr>rxLog = [CorruptIcmp 0x0A000001], receivedReply = []\<rparr>"
proof (intro conjI)
  show "passesIpChecks (exampleDatagram 8)"
    by (simp add: passesIpChecks_def exampleDatagram_def ihl_def)
  show "exampleDatagram 8 ! ihl (exampleDatagram 8) \<noteq> 0"
    by (simp add: exampleDatagram_def ihl_def)
  show "onReadyRead False exampleProber (RecvBytes (exampleDatagram 8)) =
     Some \<lparr>rxLog = [CorruptIcmp 0x0A000001], receivedReply = []\<rparr>"
    by code_simp
qed

text \<open>
  C4. For a datagram that passes the length, version and protocol checks, a nonzero
  result of \<^verbatim>\<open>calcChecksum\<close> over the bytes from the header length to the end of the read
  logs the corruption warning and processing goes on: with type 0, code 0 and this
  prober's identifier, \<^verbatim>\<open>receivedReply\<close> is emitted with the source address.
\<close>

theorem corrupt_reply_still_delivered:
  assumes "passesIpChecks packet"
    and "calcChecksum be packet (ihl packet) (length packet - ihl packet) = Some c"
    and "c \<noteq> 0"
    and "packet ! ihl packet = 0" and "packet ! (ihl packet + 1) = 0"
    and "echoIdentifier be packet = identifier self"
  shows "onReadyRead be self (RecvBytes packet) =
           Some \<lparr>rxLog = [CorruptIcmp (srcAddress be packet)],
                 receivedReply = [srcAddress be packet]\<rparr>"
  using onReadyRead_checked[OF assms(1,2), of self] assms(3-6) by simp

theorem corrupt_reply_still_delivered_witness:
  "passesIpChecks (exampleDatagram 0) \<and>
   calcChecksum False (exampleDatagram 0) (ihl (exampleDatagram 0))
     (length (exampleDatagram 0) - ihl (exampleDatagram 0)) = Some 0xCAED \<and>
   (0xCAED :: u16) \<noteq> 0 \<and>
   exampleDatagram 0 ! ihl (exampleDatagram 0) = 0 \<and>
   exampleDatagram 0 ! (ihl (exampleDatagram 0) + 1) = 0 \<and>
   echoIdentifier False (exampleDatagram 0) = identifier exampleProber \<and>
   onReadyRead False exampleProber (RecvBytes (exampleDatagram 0)) =
     Some \<lparr>rxLog = [CorruptIcmp (srcAddress False (exampleDatagram 0))],
           receivedReply = [srcAddress False (exampleDatagram 0)]\<rparr>"
proof -
  have h1: "passesIpChecks (exampleDatagram 0)"
    by (simp add: passesIpChecks_def exampleDatagram_def ihl_def)
  have h2: "calcChecksum False (exampleDatagram 0) (ihl (exampleDatagram 0))
      (length (exampleDatagram 0) - ihl (exampleDatagram 0)) = Some 0xCAED"
    by code_simp
  have h3: "(0xCAED :: u16) \<noteq> 0" by simp
  have h4: "exampleDatagram 0 ! ihl (exampleDatagram 0) = 0"
    and h5: "exampleDatagram 0 ! (ihl (exampleDatagram 0) + 1) = 0"
    by (simp_all add: exampleDatagram_def ihl_def)
  have h6: "echoIdentifier False (exampleDatagram 0) = identifier exampleProber"
    by code_simp
  show ?thesis
    using h1 h2 h3 h4 h5 h6 corrupt_reply_still_delivered [OF h1 h2 h3 h4 h5 h6] by blast
qed

section \<open>The sender\<close>

lemma length_bytes_set_ip_off_DF:
  "length (bytes (set_ip_off_DF pf buf)) = length (bytes buf)"
  by (simp add: set_ip_off_DF_def length_bytes_st16 split: os.split)

lemma stores_set_ip_off_DF: "stores (set_ip_off_DF pf buf) = stores buf @ [6, 7]"
  by (simp add: set_ip_off_DF_def stores_st16 upt_rec split: os.split)

lemma nth_set_ip_off_DF:
  "j \<noteq> 6 \<Longrightarrow> j \<noteq> 7 \<Longrightarrow> j < length (bytes buf) \<Longrightarrow>
   bytes (set_ip_off_DF pf buf) ! j = bytes buf ! j"
  by (auto simp: set_ip_off_DF_def nth_bytes_st16 split: os.split)

lemma sendEchoRequest_closed:
  "\<not> icmpSocket self \<Longrightarrow>
   sendEchoRequest pf self address n f e =
     \<lparr>ending = Returned False, after = self, rawPacket = None, sendto = None, txLog = []\<rparr>"
  by (simp add: sendEchoRequest_def)

lemma sendEchoRequest_rawPacket:
  assumes "icmpSocket self" "0 \<le> n" "n + 28 < 2 ^ 31"
  shows "\<exists>ck. calcChecksum (bigEndian pf) (bytes (buildPacket pf self address n e (28 + n))) 20
                (8 + nat n) = Some ck \<and>
              rawPacket (sendEchoRequest pf self address n f e) =
                Some ((if \<not> f then set_ip_off_DF pf else id)
                        (st16 (bigEndian pf) 22 ck (buildPacket pf self address n e (28 + n))))"
proof -
  have r: "toInt (28 + n) = 28 + n" using assms by (simp add: toInt_id)
  have p: "toSizeT (toInt (8 + n)) = 8 + nat n"
    using assms by (simp add: toInt_id toSizeT_id nat_add_distrib)
  have "20 + (8 + nat n) \<le> length (bytes (buildPacket pf self address n e (28 + n)))"
    using assms by (simp add: length_bytes_buildPacket nat_add_distrib)
  then obtain ck where ck: "calcChecksum (bigEndian pf)
      (bytes (buildPacket pf self address n e (28 + n))) 20 (8 + nat n) = Some ck"
    using calcChecksum_in_bounds by blast
  show ?thesis
    using assms ck by (simp add: sendEchoRequest_def Let_def r p)
qed

lemma sendEchoRequest_returns:
  assumes "icmpSocket self" "0 \<le> n" "n + 28 < 2 ^ 31"
  shows "after (sendEchoRequest pf self address n f e)
           = self\<lparr>nextSequence := nextSequence self + 1\<rparr>"
    and "\<exists>ok. ending (sendEchoRequest pf self address n f e) = Returned ok"
proof -
  have r: "toInt (28 + n) = 28 + n" using assms by (simp add: toInt_id)
  have p: "toSizeT (toInt (8 + n)) = 8 + nat n"
    using assms by (simp add: toInt_id toSizeT_id nat_add_distrib)
  have "20 + (8 + nat n) \<le> length (bytes (buildPacket pf self address n e (28 + n)))"
    using assms by (simp add: length_bytes_buildPacket nat_add_distrib)
  then obtain ck where ck: "calcChecksum (bigEndian pf)
      (bytes (buildPacket pf self address n e (28 + n))) 20 (8 + nat n) = Some ck"
    using calcChecksum_in_bounds by blast
  show "after (sendEchoRequest pf self address n f e)
      = self\<lparr>nextSequence := nextSequence self + 1\<rparr>"
    using assms ck by (simp add: sendEchoRequest_def Let_def r p)
  show "\<exists>ok. ending (sendEchoRequest pf self address n f e) = Returned ok"
    using assms ck by (auto simp: sendEchoRequest_def Let_def r p)
qed

text \<open>
  With a payload size of -28 the vector is empty: the call faults at its first store,
  the counter not yet incremented.
\<close>

lemma sendEchoRequest_empty_vector:
  "icmpSocket self \<Longrightarrow>
   sendEchoRequest pf self address (- 28) f e =
     \<lparr>ending = NullStore, after = self, rawPacket = None, sendto = None, txLog = []\<rparr>"
  by (simp add: sendEchoRequest_def toInt_def)

lemma sendAll_closed: "\<not> icmpSocket self \<Longrightarrow> sendAll pf self cs = Some self"
  by (induction cs) (simp_all add: sendEchoRequest_closed)

lemma sendAll_counts:
  "icmpSocket self \<Longrightarrow>
   \<forall>c \<in> set cs. 0 \<le> c_payloadSize c \<and> c_payloadSize c + 28 < 2 ^ 31 \<Longrightarrow>
   sendAll pf self cs = Some (self\<lparr>nextSequence := nextSequence self + of_nat (length cs)\<rparr>)"
proof (induction cs arbitrary: self)
  case Nil
  then show ?case by simp
next
  case (Cons c cs)
  let ?self' = "self\<lparr>nextSequence := nextSequence self + 1\<rparr>"
  let ?r = "sendEchoRequest pf self (c_address c) (c_payloadSize c) (c_allowFragment c) (c_env c)"
  have c: "0 \<le> c_payloadSize c" "c_payloadSize c + 28 < 2 ^ 31"
    using Cons.prems(2) by simp_all
  have step: "after ?r = ?self'"
    using Cons.prems(1) c by (rule sendEchoRequest_returns(1))
  obtain ok where ok: "ending ?r = Returned ok"
    using sendEchoRequest_returns(2)[OF Cons.prems(1) c] by blast
  have "icmpSocket ?self'" using Cons.prems(1) by simp
  moreover have "\<forall>c \<in> set cs. 0 \<le> c_payloadSize c \<and> c_payloadSize c + 28 < 2 ^ 31"
    using Cons.prems(2) by simp
  ultimately have "sendAll pf ?self' cs
      = Some (?self'\<lparr>nextSequence := nextSequence ?self' + of_nat (length cs)\<rparr>)"
    by (rule Cons.IH)
  then show ?case by (simp add: Let_def step ok add.assoc)
qed

lemma filter_upt_ge: "a \<le> m \<Longrightarrow> filter (\<lambda>i. m \<le> i) [a ..< b] = [m ..< b]"
proof (induction b)
  case 0
  then show ?case by simp
next
  case (Suc b)
  then show ?case by (cases "m \<le> b") (auto simp: not_le)
qed

lemma filter_upt_lt: "b \<le> m \<Longrightarrow> filter (\<lambda>i. m \<le> i) [a ..< b] = []"
  by (auto simp: filter_empty_conv)

lemma outOfBounds_final:
  assumes len: "length (bytes buf) = 28 + nat n"
    and st: "stores buf = stores (buildPacket pf self address n e rps) @ rest"
    and rest: "\<forall>i \<in> set rest. i < 28"
  shows "outOfBounds buf = [28 + nat n ..< 28 + 2 * sizeofTimestampField pf]"
proof -
  let ?P = "\<lambda>i. 28 + nat n \<le> i"
  have 1: "filter ?P [12, 13, 14, 15, 0, 0, 1, 2, 3, 4, 5, 6, 7, 8, 9, 10, 11, 16, 17, 18, 19] = []"
    by simp
  have 2: "filter ?P [20 ..< 28] = []" by (rule filter_upt_lt) simp
  have 3: "filter ?P (map (\<lambda>k. 28 + k) [0 ..< nat n]) = []"
    by (auto simp: filter_empty_conv)
  have 4: "filter ?P [28 ..< 28 + 2 * sizeofTimestampField pf]
      = [28 + nat n ..< 28 + 2 * sizeofTimestampField pf]"
    by (rule filter_upt_ge) simp
  have 5: "filter ?P rest = []" using rest by (auto simp: filter_empty_conv)
  show ?thesis
    unfolding outOfBounds_def len st stores_buildPacket filter_append 1 2 3 4 5 by simp
qed

text \<open>
  C5. For a call with an open socket and a payload size within the constraints of the
  operation (not negative, and a datagram of at most 65535 bytes), the packet built has,
  in the IP header: version 4, header-length nibble 5, total length (as stored, in host
  order) 20 + 8 + payload size, TTL 255, protocol 1, identification (network order) the
  prober's identifier, destination (network order) the address; in the echo header:
  type 8, code 0, identifier (network order) the prober's identifier, sequence (network
  order) the \<^verbatim>\<open>_nextSequence\<close> of before the call; and the checksum field holds what
  \<^verbatim>\<open>calcChecksum\<close> returns over the echo header and payload (offset 20, length 8 +
  payload size) of the finished packet with the checksum field zeroed.
\<close>

theorem echo_request_fields:
  assumes "icmpSocket self" and "0 \<le> payloadSize" and "payloadSize + 28 \<le> 65535"
  shows "\<exists>buf. rawPacket (sendEchoRequest pf self address payloadSize allowFragment e) = Some buf \<and>
           length (bytes buf) = 20 + 8 + nat payloadSize \<and>
           drop_bit 4 (bytes buf ! 0) = 4 \<and>
           bytes buf ! 0 AND 0x0F = 5 \<and>
           unat (word16 (bigEndian pf) (bytes buf ! 2) (bytes buf ! 3)) = 20 + 8 + nat payloadSize \<and>
           bytes buf ! 8 = 255 \<and>
           bytes buf ! 9 = 1 \<and>
           ntohs (bigEndian pf) (word16 (bigEndian pf) (bytes buf ! 4) (bytes buf ! 5))
             = identifier self \<and>
           ntohl (bigEndian pf)
               (word32 (bigEndian pf) (bytes buf ! 16) (bytes buf ! 17) (bytes buf ! 18)
                  (bytes buf ! 19))
             = address \<and>
           bytes buf ! 20 = 8 \<and>
           bytes buf ! 21 = 0 \<and>
           ntohs (bigEndian pf) (word16 (bigEndian pf) (bytes buf ! 24) (bytes buf ! 25))
             = identifier self \<and>
           ntohs (bigEndian pf) (word16 (bigEndian pf) (bytes buf ! 26) (bytes buf ! 27))
             = nextSequence self \<and>
           calcChecksum (bigEndian pf) (bytes (st16 (bigEndian pf) 22 0 buf)) 20
               (8 + nat payloadSize)
             = Some (word16 (bigEndian pf) (bytes buf ! 22) (bytes buf ! 23))"
proof -
  let ?be = "bigEndian pf"
  let ?rps = "28 + payloadSize"
  let ?built = "buildPacket pf self address payloadSize e ?rps"
  let ?init = "\<lparr>bytes = replicate (nat ?rps) 0, stores = []\<rparr>"
  define hdr where "hdr = bytes (writeEchoHeader ?be (identifier self) (nextSequence self) 20
    (writeIpHeader ?be (identifier self) address ?rps ?init))"
  have small: "payloadSize + 28 < 2 ^ 31" using assms(3) by simp
  obtain ck where
    ck: "calcChecksum ?be (bytes ?built) 20 (8 + nat payloadSize) = Some ck" and
    raw: "rawPacket (sendEchoRequest pf self address payloadSize allowFragment e) =
            Some ((if \<not> allowFragment then set_ip_off_DF pf else id) (st16 ?be 22 ck ?built))"
    using sendEchoRequest_rawPacket[OF assms(1,2) small] by blast
  let ?buf = "(if \<not> allowFragment then set_ip_off_DF pf else id) (st16 ?be 22 ck ?built)"
  have nrps: "nat ?rps = 28 + nat payloadSize" using assms(2) by (simp add: nat_add_distrib)
  have lbuilt: "length (bytes ?built) = 28 + nat payloadSize"
    by (simp add: length_bytes_buildPacket nrps)
  have len: "length (bytes ?buf) = 28 + nat payloadSize"
    by (simp add: length_bytes_set_ip_off_DF length_bytes_st16 lbuilt)
  have linit: "28 \<le> length (bytes ?init)" by (simp add: nrps)
  note h = nth_header[OF linit, of ?be "identifier self" "nextSequence self" address ?rps,
      folded hdr_def]
  have built: "bytes ?built ! j = hdr ! j" if "j < 28" for j
    unfolding hdr_def using that by (intro nth_buildPacket_header) (simp_all add: nrps)
  have st: "bytes (st16 ?be 22 ck ?built) ! j
      = (if 22 \<le> j \<and> j < 24 then bytes16 ?be ck ! (j - 22) else bytes ?built ! j)"
    if "j < 28 + nat payloadSize" for j
    using that nth_bytes_st16[of j ?built ?be 22 ck] by (simp add: lbuilt)
  have fin: "bytes ?buf ! j
      = (if 22 \<le> j \<and> j < 24 then bytes16 ?be ck ! (j - 22) else bytes ?built ! j)"
    if "j < 28 + nat payloadSize" "j \<noteq> 6" "j \<noteq> 7" for j
    using that st[OF that(1)] by (simp add: nth_set_ip_off_DF length_bytes_st16 lbuilt)
  have f: "bytes ?buf ! j = hdr ! j" if "j < 28" "j \<noteq> 6" "j \<noteq> 7" "j \<noteq> 22" "j \<noteq> 23" for j
    using that fin[of j] built[of j] by auto
  have c22: "bytes ?buf ! 22 = bytes16 ?be ck ! 0" and c23: "bytes ?buf ! 23 = bytes16 ?be ck ! Suc 0"
    using fin[of 22] fin[of 23] by simp_all
  have cks: "word16 ?be (bytes ?buf ! 22) (bytes ?buf ! 23) = ck"
    by (simp only: c22 c23 word16_nth)
  have tot: "unat (word16 ?be (bytes ?buf ! 2) (bytes ?buf ! 3)) = 20 + 8 + nat payloadSize"
  proof -
    have "bytes ?buf ! 2 = hdr ! 2" and "bytes ?buf ! 3 = hdr ! 3"
      using f[of 2] f[of 3] by simp_all
    then have "word16 ?be (bytes ?buf ! 2) (bytes ?buf ! 3) = word_of_int ?rps"
      using h(2) by (simp only:)
    moreover have "unat (word_of_int ?rps :: u16) = nat ?rps"
      using assms(2,3) by (intro unat_word_of_int16) simp_all
    ultimately have "unat (word16 ?be (bytes ?buf ! 2) (bytes ?buf ! 3)) = 28 + nat payloadSize"
      by (simp only: nrps)
    then show ?thesis by simp
  qed
  have zeroed: "calcChecksum ?be (bytes (st16 ?be 22 0 ?buf)) 20 (8 + nat payloadSize)
      = calcChecksum ?be (bytes ?built) 20 (8 + nat payloadSize)"
  proof (rule calcChecksum_cong)
    show "20 + (8 + nat payloadSize) \<le> length (bytes ?built)" by (simp add: lbuilt)
    show "length (bytes (st16 ?be 22 0 ?buf)) = length (bytes ?built)"
      by (simp only: length_bytes_st16 len lbuilt)
    fix j assume j: "20 \<le> j" "j < 20 + (8 + nat payloadSize)"
    then have jl: "j < length (bytes ?buf)" by (simp add: len)
    have z: "bytes (st16 ?be 22 0 ?buf) ! j
        = (if 22 \<le> j \<and> j < 24 then bytes16 ?be 0 ! (j - 22) else bytes ?buf ! j)"
      using nth_bytes_st16[OF jl, of ?be 22 0] by simp
    show "bytes (st16 ?be 22 0 ?buf) ! j = bytes ?built ! j"
    proof (cases "j = 22 \<or> j = 23")
      case True
      then show ?thesis using z built[of j] h(9,10) by (auto simp: bytes16_def)
    next
      case False
      then show ?thesis using z fin[of j] j by auto
    qed
  qed
  show ?thesis
    using raw len tot cks ck zeroed
    by (intro exI[of _ ?buf])
       (simp add: f h version_nibbles ntohs_htons ntohl_htonl)
qed

theorem echo_request_fields_witness:
  "icmpSocket exampleProber \<and> (0::int) \<le> 56 \<and> (56::int) + 28 \<le> 65535 \<and>
   (\<exists>buf. rawPacket (sendEchoRequest exampleLinux exampleProber 0x0A000001 56 True exampleEnv)
            = Some buf \<and>
          length (bytes buf) = 84 \<and>
          drop_bit 4 (bytes buf ! 0) = 4 \<and>
          bytes buf ! 0 AND 0x0F = 5 \<and>
          unat (word16 False (bytes buf ! 2) (bytes buf ! 3)) = 84 \<and>
          bytes buf ! 8 = 255 \<and>
          bytes buf ! 9 = 1 \<and>
          ntohs False (word16 False (bytes buf ! 4) (bytes buf ! 5)) = 0x1234 \<and>
          ntohl False
            (word32 False (bytes buf ! 16) (bytes buf ! 17) (bytes buf ! 18) (bytes buf ! 19))
            = 0x0A000001 \<and>
          bytes buf ! 20 = 8 \<and>
          bytes buf ! 21 = 0 \<and>
          ntohs False (word16 False (bytes buf ! 24) (bytes buf ! 25)) = 0x1234 \<and>
          ntohs False (word16 False (bytes buf ! 26) (bytes buf ! 27)) = 7 \<and>
          calcChecksum False (bytes (st16 False 22 0 buf)) 20 64
            = Some (word16 False (bytes buf ! 22) (bytes buf ! 23)))"
proof -
  have h1: "icmpSocket exampleProber" by (simp add: exampleProber_def)
  have h2: "(0::int) \<le> 56" and h3: "(56::int) + 28 \<le> 65535" by simp_all
  show ?thesis
    using h1 echo_request_fields [OF h1 h2 h3, of exampleLinux "0x0A000001" True exampleEnv]
    by (simp add: exampleLinux_def exampleProber_def)
qed

text \<open>
  C10. The two timestamp fields are stored at offsets 28 to 28 + 2 * sizeof(TimestampField)
  (16 bytes on Linux, 8 on macOS) whatever the payload size. For a payload size that is
  not negative, the stores that fall outside the vector of 20 + 8 + payloadSize bytes are
  exactly the offsets from 28 + payloadSize up to the end of the second timestamp field:
  none when payloadSize is at least 2 * sizeof(TimestampField), and some timestamp byte
  otherwise.
\<close>

theorem timestamp_overruns_short_payload:
  assumes "icmpSocket self" and "0 \<le> payloadSize" and "payloadSize + 28 < 2 ^ 31"
  shows "\<exists>buf. rawPacket (sendEchoRequest pf self address payloadSize allowFragment e) = Some buf \<and>
           length (bytes buf) = 20 + 8 + nat payloadSize \<and>
           2 * sizeofTimestampField pf = (case system pf of Mac \<Rightarrow> 8 | Linux \<Rightarrow> 16) \<and>
           set [28 ..< 28 + 2 * sizeofTimestampField pf] \<subseteq> set (stores buf) \<and>
           outOfBounds buf = [28 + nat payloadSize ..< 28 + 2 * sizeofTimestampField pf] \<and>
           (outOfBounds buf = [] \<longleftrightarrow> 2 * int (sizeofTimestampField pf) \<le> payloadSize)"
proof -
  let ?built = "buildPacket pf self address payloadSize e (28 + payloadSize)"
  obtain ck where
    raw: "rawPacket (sendEchoRequest pf self address payloadSize allowFragment e) =
            Some ((if \<not> allowFragment then set_ip_off_DF pf else id)
                    (st16 (bigEndian pf) 22 ck ?built))"
    using sendEchoRequest_rawPacket[OF assms] by blast
  let ?buf = "(if \<not> allowFragment then set_ip_off_DF pf else id) (st16 (bigEndian pf) 22 ck ?built)"
  have len: "length (bytes ?buf) = 28 + nat payloadSize"
    using assms(2)
    by (simp add: length_bytes_set_ip_off_DF length_bytes_st16 length_bytes_buildPacket
        nat_add_distrib)
  have st: "stores ?buf = stores ?built @ ([22, 23] @ (if \<not> allowFragment then [6, 7] else []))"
    by (simp add: stores_set_ip_off_DF stores_st16 upt_rec)
  have rest: "\<forall>i \<in> set ([22, 23] @ (if \<not> allowFragment then [6, 7] else [])). i < (28::nat)"
    by auto
  have oob: "outOfBounds ?buf = [28 + nat payloadSize ..< 28 + 2 * sizeofTimestampField pf]"
    using len st rest by (rule outOfBounds_final)
  have ts: "2 * sizeofTimestampField pf = (case system pf of Mac \<Rightarrow> 8 | Linux \<Rightarrow> 16)"
    by (simp add: sizeofTimestampField_def split: os.split)
  have sub: "set [28 ..< 28 + 2 * sizeofTimestampField pf] \<subseteq> set (stores ?buf)"
    unfolding st stores_buildPacket by auto
  have empty: "outOfBounds ?buf = [] \<longleftrightarrow> 2 * int (sizeofTimestampField pf) \<le> payloadSize"
    unfolding oob using assms(2) by auto
  show ?thesis
    using raw len ts sub oob empty by (intro exI[of _ ?buf]) simp
qed

theorem timestamp_overruns_short_payload_witness:
  "icmpSocket exampleProber \<and> (0::int) \<le> 4 \<and> (4::int) + 28 < 2 ^ 31 \<and>
   (\<exists>buf. rawPacket (sendEchoRequest exampleLinux exampleProber 0x0A000001 4 True exampleEnv)
            = Some buf \<and>
          length (bytes buf) = 32 \<and>
          set [28 ..< 44] \<subseteq> set (stores buf) \<and>
          outOfBounds buf = [32 ..< 44])"
proof -
  have h1: "icmpSocket exampleProber" by (simp add: exampleProber_def)
  have h2: "(0::int) \<le> 4" and h3: "(4::int) + 28 < 2 ^ 31" by simp_all
  have ts: "sizeofTimestampField exampleLinux = 8"
    by (simp add: sizeofTimestampField_def exampleLinux_def)
  show ?thesis
    using h1 timestamp_overruns_short_payload
      [OF h1 h2 h3, of exampleLinux "0x0A000001" True exampleEnv]
    by (simp add: ts) blast
qed

text \<open>
  C6. From any initial sequence value, 65536 calls of \<^verbatim>\<open>sendEchoRequest\<close> that each
  reach the construction of the packet (the socket is open, the payload size is not
  negative and the packet size fits an \<^verbatim>\<open>int\<close>) all return and bring the prober back
  to where it started, \<^verbatim>\<open>_nextSequence\<close> at its initial value; one more such call
  leaves \<^verbatim>\<open>_nextSequence\<close> at the initial value plus one: the counter wraps modulo
  65536.
\<close>

theorem sequence_wraps_after_65536:
  assumes "icmpSocket self"
    and "\<forall>c \<in> set cs. 0 \<le> c_payloadSize c \<and> c_payloadSize c + 28 < 2 ^ 31"
    and "length cs = 65536"
  shows "sendAll pf self cs = Some self \<and>
         (0 \<le> c_payloadSize c \<and> c_payloadSize c + 28 < 2 ^ 31 \<longrightarrow>
          sendAll pf self (cs @ [c]) = Some (self\<lparr>nextSequence := nextSequence self + 1\<rparr>))"
proof (intro conjI impI)
  show "sendAll pf self cs = Some self"
    using sendAll_counts[OF assms(1,2), of pf] assms(3) by simp
next
  assume "0 \<le> c_payloadSize c \<and> c_payloadSize c + 28 < 2 ^ 31"
  then have "\<forall>c \<in> set (cs @ [c]). 0 \<le> c_payloadSize c \<and> c_payloadSize c + 28 < 2 ^ 31"
    using assms(2) by auto
  then show "sendAll pf self (cs @ [c]) = Some (self\<lparr>nextSequence := nextSequence self + 1\<rparr>)"
    using sendAll_counts[OF assms(1), of "cs @ [c]" pf] assms(3) by simp
qed

theorem sequence_wraps_after_65536_witness:
  "icmpSocket exampleProber \<and>
   0 \<le> c_payloadSize exampleCall \<and> c_payloadSize exampleCall + 28 < 2 ^ 31 \<and>
   length (replicate 65536 exampleCall) = 65536 \<and>
   sendAll exampleLinux exampleProber (replicate 65536 exampleCall) = Some exampleProber \<and>
   sendAll exampleLinux exampleProber (replicate 65536 exampleCall @ [exampleCall])
     = Some (exampleProber\<lparr>nextSequence := nextSequence exampleProber + 1\<rparr>)"
proof -
  have h1: "icmpSocket exampleProber" by (simp add: exampleProber_def)
  have v: "0 \<le> c_payloadSize exampleCall \<and> c_payloadSize exampleCall + 28 < 2 ^ 31"
    by (simp add: exampleCall_def)
  have h2: "\<forall>c \<in> set (replicate 65536 exampleCall).
      0 \<le> c_payloadSize c \<and> c_payloadSize c + 28 < 2 ^ 31"
    using v by simp
  have h3: "length (replicate 65536 exampleCall) = 65536" by simp
  show ?thesis
    using h1 v h3 sequence_wraps_after_65536 [OF h1 h2 h3, of exampleLinux exampleCall]
    by blast
qed

text \<open>
  C7. A call of \<^verbatim>\<open>sendEchoRequest\<close> with the socket open (and a payload size that is
  not negative, the packet size fitting an \<^verbatim>\<open>int\<close>) returns, and leaves the prober as
  it was but for \<^verbatim>\<open>_nextSequence\<close>, which is one more (modulo 65536): whatever
  \<^verbatim>\<open>setsockopt\<close> and \<^verbatim>\<open>sendto\<close> return, and whether the call returns true or false.
\<close>

theorem sequence_consumed_once:
  assumes "icmpSocket self" and "0 \<le> payloadSize" and "payloadSize + 28 < 2 ^ 31"
  shows "after (sendEchoRequest pf self address payloadSize allowFragment e)
           = self\<lparr>nextSequence := nextSequence self + 1\<rparr> \<and>
         (\<exists>ok. ending (sendEchoRequest pf self address payloadSize allowFragment e)
                 = Returned ok)"
  using sendEchoRequest_returns[OF assms] by blast

theorem sequence_consumed_once_witness:
  "icmpSocket exampleProber \<and> (0::int) \<le> 56 \<and> (56::int) + 28 < 2 ^ 31 \<and>
   after (sendEchoRequest exampleLinux exampleProber 0x0A000001 56 False exampleEnv)
     = exampleProber\<lparr>nextSequence := nextSequence exampleProber + 1\<rparr> \<and>
   (\<exists>ok. ending (sendEchoRequest exampleLinux exampleProber 0x0A000001 56 False exampleEnv)
           = Returned ok)"
proof -
  have h1: "icmpSocket exampleProber" by (simp add: exampleProber_def)
  have h2: "(0::int) \<le> 56" and h3: "(56::int) + 28 < 2 ^ 31" by simp_all
  show ?thesis
    using h1 h2 h3 sequence_consumed_once [OF h1 h2 h3] by blast
qed

text \<open>
  C8. With the socket not open, \<^verbatim>\<open>sendEchoRequest\<close> returns false, builds no packet,
  calls no \<^verbatim>\<open>sendto\<close>, logs nothing and leaves the prober as it is; and so it does
  after any number of earlier calls, each of which has returned and left the prober
  as it is.
\<close>

theorem closed_socket_never_sends:
  assumes "\<not> icmpSocket self"
  shows "sendAll pf self cs = Some self \<and>
         sendEchoRequest pf self address payloadSize allowFragment e =
           \<lparr>ending = Returned False, after = self, rawPacket = None, sendto = None, txLog = []\<rparr>"
  using assms by (simp add: sendAll_closed sendEchoRequest_closed)

theorem closed_socket_never_sends_witness:
  "\<not> icmpSocket (exampleProber\<lparr>icmpSocket := False\<rparr>) \<and>
   sendAll exampleLinux (exampleProber\<lparr>icmpSocket := False\<rparr>) [exampleCall, exampleCall]
     = Some (exampleProber\<lparr>icmpSocket := False\<rparr>) \<and>
   sendEchoRequest exampleLinux (exampleProber\<lparr>icmpSocket := False\<rparr>) 0x0A000001 56 True
     exampleEnv =
       \<lparr>ending = Returned False, after = exampleProber\<lparr>icmpSocket := False\<rparr>, rawPacket = None,
        sendto = None, txLog = []\<rparr>"
proof -
  have h: "\<not> icmpSocket (exampleProber\<lparr>icmpSocket := False\<rparr>)" by simp
  show ?thesis using h closed_socket_never_sends [OF h] by blast
qed

end
